theory Spec2Isabelle
  imports Complex_Main "HOL-Library.Multiset"
begin

section \<open>JavaScript numbers\<close>

text \<open>
  The betting value functions of the frontend (\<^verbatim>\<open>utils/oddsUtils.js\<close>,
  \<^verbatim>\<open>services/oddsService.js\<close>, \<^verbatim>\<open>services/simulationService.js\<close>) compute on
  JavaScript numbers. A number is modelled as a real, or one of the three special values
  that JavaScript arithmetic can produce. The operations of this section are exact on finite
  operands: they give the value that the operation of the code rounds to a double (the
  rounding follows below). The special values follow
  IEEE 754 as JavaScript does: a comparison with \<open>NaN\<close> is false, \<open>x / 0\<close> is an
  infinity or \<open>NaN\<close>, \<open>Infinity - Infinity\<close> is \<open>NaN\<close>. There is one zero: at every
  division of the functions below a zero divisor is \<open>+0\<close> (it comes out of
  \<^verbatim>\<open>Math.abs\<close> or out of a subtraction of equal values).
\<close>

datatype jsnum = Num real | PosInf | NegInf | NaN

fun js_lt :: "jsnum \<Rightarrow> jsnum \<Rightarrow> bool" where
  "js_lt NaN _ = False"
| "js_lt _ NaN = False"
| "js_lt (Num x) (Num y) = (x < y)"
| "js_lt NegInf NegInf = False"
| "js_lt NegInf _ = True"
| "js_lt _ NegInf = False"
| "js_lt PosInf _ = False"
| "js_lt _ PosInf = True"

definition js_gt :: "jsnum \<Rightarrow> jsnum \<Rightarrow> bool" where
  "js_gt a b = js_lt b a"

definition js_le :: "jsnum \<Rightarrow> jsnum \<Rightarrow> bool" where
  "js_le a b = (a \<noteq> NaN \<and> b \<noteq> NaN \<and> \<not> js_lt b a)"

definition js_ge :: "jsnum \<Rightarrow> jsnum \<Rightarrow> bool" where
  "js_ge a b = js_le b a"

fun js_neg :: "jsnum \<Rightarrow> jsnum" where
  "js_neg (Num x) = Num (- x)"
| "js_neg PosInf = NegInf"
| "js_neg NegInf = PosInf"
| "js_neg NaN = NaN"

fun js_add :: "jsnum \<Rightarrow> jsnum \<Rightarrow> jsnum" where
  "js_add NaN _ = NaN"
| "js_add _ NaN = NaN"
| "js_add (Num x) (Num y) = Num (x + y)"
| "js_add PosInf NegInf = NaN"
| "js_add NegInf PosInf = NaN"
| "js_add PosInf _ = PosInf"
| "js_add _ PosInf = PosInf"
| "js_add NegInf _ = NegInf"
| "js_add _ NegInf = NegInf"

definition js_sub :: "jsnum \<Rightarrow> jsnum \<Rightarrow> jsnum" where
  "js_sub a b = js_add a (js_neg b)"

text \<open>The sign of a product or quotient with an infinite operand.\<close>

definition js_signed_inf :: "bool \<Rightarrow> jsnum" where
  "js_signed_inf negative = (if negative then NegInf else PosInf)"

fun js_mul :: "jsnum \<Rightarrow> jsnum \<Rightarrow> jsnum" where
  "js_mul NaN _ = NaN"
| "js_mul _ NaN = NaN"
| "js_mul (Num x) (Num y) = Num (x * y)"
| "js_mul a b =
     (if a = Num 0 \<or> b = Num 0 then NaN
      else js_signed_inf (js_lt a (Num 0) \<noteq> js_lt b (Num 0)))"

fun js_div :: "jsnum \<Rightarrow> jsnum \<Rightarrow> jsnum" where
  "js_div NaN _ = NaN"
| "js_div _ NaN = NaN"
| "js_div (Num x) (Num y) =
     (if y \<noteq> 0 then Num (x / y)
      else if x = 0 then NaN
      else js_signed_inf (x < 0))"
| "js_div (Num x) _ = Num 0"
| "js_div a (Num y) = js_signed_inf (js_lt a (Num 0) \<noteq> (y < 0))"
| "js_div _ _ = NaN"

text \<open>\<^verbatim>\<open>Math.abs\<close>, \<^verbatim>\<open>Math.max\<close> of two arguments, and \<^verbatim>\<open>Math.round\<close>, which
  rounds to the nearest integer and a tie towards \<open>+\<infinity>\<close>.\<close>

fun js_abs :: "jsnum \<Rightarrow> jsnum" where
  "js_abs (Num x) = Num \<bar>x\<bar>"
| "js_abs PosInf = PosInf"
| "js_abs NegInf = PosInf"
| "js_abs NaN = NaN"

definition js_max :: "jsnum \<Rightarrow> jsnum \<Rightarrow> jsnum" where
  "js_max a b = (if a = NaN \<or> b = NaN then NaN else if js_lt a b then b else a)"

fun js_round :: "jsnum \<Rightarrow> jsnum" where
  "js_round (Num x) = Num (of_int \<lfloor>x + 1 / 2\<rfloor>)"
| "js_round a = a"

fun is_finite :: "jsnum \<Rightarrow> bool" where
  "is_finite (Num x) = True"
| "is_finite _ = False"

section \<open>Binary64 arithmetic\<close>

text \<open>
  A JavaScript number is a binary64 double: \<open>m * 2 ^ e\<close> with an integer \<open>|m| < 2 ^ 53\<close>
  and \<open>-1074 \<le> e \<le> 971\<close>. An arithmetic operation returns its exact result rounded to the
  nearest double, a tie to the even \<open>m\<close>, and an infinity when the rounded value leaves
  the range. \<open>expo x\<close> is the exponent of \<open>x\<close>, not below that of the subnormal doubles,
  \<open>ulp x\<close> the distance of the doubles around \<open>x\<close>, \<open>nearest x\<close> the rounded value and
  \<open>fl x\<close> the result with the overflow. Comparisons, \<^verbatim>\<open>Math.abs\<close>, \<^verbatim>\<open>Math.max\<close> and
  \<^verbatim>\<open>Math.round\<close> are exact on doubles.
\<close>

definition expo :: "real \<Rightarrow> int" where
  "expo x = max (- 1022) \<lfloor>log 2 \<bar>x\<bar>\<rfloor>"

definition ulp :: "real \<Rightarrow> real" where
  "ulp x = 2 powr (of_int (expo x) - 52)"

definition round_even :: "real \<Rightarrow> int" where
  "round_even y =
     (let n = \<lfloor>y\<rfloor>; f = y - of_int n
      in if f < 1 / 2 then n else if 1 / 2 < f then n + 1 else if even n then n else n + 1)"

definition nearest :: "real \<Rightarrow> real" where
  "nearest x = of_int (round_even (x / ulp x)) * ulp x"

definition fl :: "real \<Rightarrow> jsnum" where
  "fl x = (if 2 ^ 1024 \<le> \<bar>nearest x\<bar> then js_signed_inf (x < 0) else Num (nearest x))"

definition is_double :: "real \<Rightarrow> bool" where
  "is_double a \<longleftrightarrow> fl a = Num a"

fun round64 :: "jsnum \<Rightarrow> jsnum" where
  "round64 (Num x) = fl x"
| "round64 a = a"

definition add64 :: "jsnum \<Rightarrow> jsnum \<Rightarrow> jsnum" where
  "add64 a b = round64 (js_add a b)"

definition sub64 :: "jsnum \<Rightarrow> jsnum \<Rightarrow> jsnum" where
  "sub64 a b = round64 (js_sub a b)"

definition mul64 :: "jsnum \<Rightarrow> jsnum \<Rightarrow> jsnum" where
  "mul64 a b = round64 (js_mul a b)"

definition div64 :: "jsnum \<Rightarrow> jsnum \<Rightarrow> jsnum" where
  "div64 a b = round64 (js_div a b)"

section \<open>Odds conversion (utils/oddsUtils.js)\<close>

datatype error =
  InvalidProbabilityError  \<comment> \<open>\<^verbatim>\<open>throw new Error('Probability must be between 0 and 1')\<close>\<close>
| TypeError  \<comment> \<open>raised by the runtime: a property read or destructuring of \<^verbatim>\<open>undefined\<close>\<close>


definition americanToImpliedProbability64 :: "jsnum \<Rightarrow> jsnum" where
  "americanToImpliedProbability64 americanOdds =
     (if js_gt americanOdds (Num 0)
      then div64 (Num 100) (add64 americanOdds (Num 100))
      else div64 (js_abs americanOdds) (add64 (js_abs americanOdds) (Num 100)))"

definition impliedProbabilityToAmerican :: "jsnum \<Rightarrow> error + jsnum" where
  "impliedProbabilityToAmerican probability =
     (if js_le probability (Num 0) \<or> js_ge probability (Num 1)
      then Inl InvalidProbabilityError
      else
        let odds =
          (if js_gt probability (Num (1 / 2))
           then div64 (mul64 (Num (- 100)) probability) (sub64 (Num 1) probability)
           else div64 (mul64 (Num 100) (sub64 (Num 1) probability)) probability)
        in Inr (mul64 (js_round (div64 odds (Num 5))) (Num 5)))"

definition americanToDecimalOdds :: "jsnum \<Rightarrow> jsnum" where
  "americanToDecimalOdds americanOdds =
     (if js_gt americanOdds (Num 0)
      then add64 (Num 1) (div64 americanOdds (Num 100))
      else add64 (Num 1) (div64 (Num 100) (js_abs americanOdds)))"

definition calculateKellyStake :: "jsnum \<Rightarrow> jsnum \<Rightarrow> jsnum" where
  "calculateKellyStake probability americanOdds =
     (let decimalOdds = americanToDecimalOdds americanOdds;
          q = sub64 (Num 1) probability;
          b = sub64 decimalOdds (Num 1);
          stake = div64 (sub64 (mul64 b probability) q) b
      in js_max (Num 0) stake)"

section \<open>Value analysis (services/oddsService.js)\<close>

definition oddsToProb :: "jsnum \<Rightarrow> jsnum" where
  "oddsToProb americanOdds =
     (if js_gt americanOdds (Num 0)
      then js_div (Num 100) (js_add americanOdds (Num 100))
      else js_div (js_abs americanOdds) (js_add (js_abs americanOdds) (Num 100)))"

definition determineValueType :: "jsnum \<Rightarrow> string" where
  "determineValueType edge =
     (if js_gt edge (Num (5 / 100)) then ''strong_value''
      else if js_gt edge (Num (2 / 100)) then ''value''
      else if js_lt edge (Num (- (5 / 100))) then ''poor''
      else if js_lt edge (Num (- (2 / 100))) then ''below''
      else ''fair'')"

section \<open>Value analysis (services/simulationService.js)\<close>

text \<open>The private methods \<^verbatim>\<open>_oddsToProb\<close>, \<^verbatim>\<open>_calculateEdge\<close> and
  \<^verbatim>\<open>_getValueRating\<close> of the class \<^verbatim>\<open>SimulationService\<close>.\<close>

definition SimulationService_oddsToProb :: "jsnum \<Rightarrow> jsnum" where
  "SimulationService_oddsToProb americanOdds =
     (if js_gt americanOdds (Num 0)
      then js_div (Num 100) (js_add americanOdds (Num 100))
      else js_div (js_abs americanOdds) (js_add (js_abs americanOdds) (Num 100)))"

definition SimulationService_calculateEdge :: "jsnum \<Rightarrow> jsnum \<Rightarrow> jsnum" where
  "SimulationService_calculateEdge marketOdds simulatedOdds =
     (let marketProb = SimulationService_oddsToProb marketOdds;
          simulatedProb = SimulationService_oddsToProb simulatedOdds
      in js_sub simulatedProb marketProb)"

text \<open>The edge as the code computes it, with each operation rounded.\<close>

definition SimulationService_oddsToProb64 :: "jsnum \<Rightarrow> jsnum" where
  "SimulationService_oddsToProb64 americanOdds =
     (if js_gt americanOdds (Num 0)
      then div64 (Num 100) (add64 americanOdds (Num 100))
      else div64 (js_abs americanOdds) (add64 (js_abs americanOdds) (Num 100)))"

definition SimulationService_calculateEdge64 :: "jsnum \<Rightarrow> jsnum \<Rightarrow> jsnum" where
  "SimulationService_calculateEdge64 marketOdds simulatedOdds =
     (let marketProb = SimulationService_oddsToProb64 marketOdds;
          simulatedProb = SimulationService_oddsToProb64 simulatedOdds
      in sub64 simulatedProb marketProb)"

definition SimulationService_getValueRating :: "jsnum \<Rightarrow> string" where
  "SimulationService_getValueRating edge =
     (if js_gt edge (Num (5 / 100)) then ''strong''
      else if js_gt edge (Num (2 / 100)) then ''value''
      else if js_lt edge (Num (- (5 / 100))) then ''poor''
      else if js_lt edge (Num (- (2 / 100))) then ''negative''
      else ''neutral'')"

section \<open>Objects, and Array.prototype.sort\<close>

text \<open>
  An argument that may be missing: \<^verbatim>\<open>undefined\<close>, \<^verbatim>\<open>null\<close> or an object. Only an
  object is truthy, so a guard \<^verbatim>\<open>!x\<close> holds for \<^verbatim>\<open>undefined\<close> and \<^verbatim>\<open>null\<close> and fails
  for every object. A numeric property that an object lacks reads as \<^verbatim>\<open>undefined\<close>,
  which every comparison and \<^verbatim>\<open>Math.abs\<close> turn into \<open>NaN\<close>; such a field is \<open>NaN\<close>
  here.
\<close>

datatype 'a jsref = Undefined | Null | Obj 'a

text \<open>
  \<^verbatim>\<open>xs.sort(cmp)\<close> is a stable sort (ECMAScript 2019): \<open>x\<close> is placed after \<open>y\<close> only
  when \<open>cmp x y > 0\<close>, and a comparator result \<open>NaN\<close> counts as \<open>0\<close>. For a consistent
  comparator the result of a stable sort is unique; it is computed here by insertion from
  the right end.
\<close>

fun js_insert :: "('a \<Rightarrow> 'a \<Rightarrow> jsnum) \<Rightarrow> 'a \<Rightarrow> 'a list \<Rightarrow> 'a list" where
  "js_insert cmp x [] = [x]"
| "js_insert cmp x (y # ys) =
     (if js_gt (cmp x y) (Num 0) then y # js_insert cmp x ys else x # y # ys)"

definition js_sort :: "('a \<Rightarrow> 'a \<Rightarrow> jsnum) \<Rightarrow> 'a list \<Rightarrow> 'a list" where
  "js_sort cmp xs = foldr (js_insert cmp) xs []"

text \<open>The objects with one property per outcome, \<^verbatim>\<open>{home, away, over, under}\<close>, and
  \<^verbatim>\<open>Object.entries\<close> of such an object.\<close>

record 'a outcomes =
  home :: 'a
  away :: 'a
  over :: 'a
  under :: 'a

definition entries :: "'a outcomes \<Rightarrow> (string \<times> 'a) list" where
  "entries obj =
     [(''home'', home obj), (''away'', away obj), (''over'', over obj), (''under'', under obj)]"

record game_odds =
  homeMoneyline :: jsnum
  awayMoneyline :: jsnum
  overOdds :: jsnum
  underOdds :: jsnum

section \<open>Best value and the value assessment (services/oddsService.js)\<close>

text \<open>
  The value of \<^verbatim>\<open>typeNames[bestType]\<close>: the name that the object \<^verbatim>\<open>typeNames\<close> holds
  under one of its four keys, and for every other key what the lookup inherits from
  \<^verbatim>\<open>Object.prototype\<close> (\<^verbatim>\<open>undefined\<close> for a key that the prototype lacks, a member of the
  prototype for a key such as \<^verbatim>\<open>toString\<close>).
\<close>

datatype type_name = TypeName string | Inherited string

record best_value =
  type :: string
  typeName :: type_name
  edge :: jsnum
  valueType :: string

definition typeNames :: "string \<Rightarrow> type_name" where
  "typeNames k =
     (if k = ''home'' then TypeName ''Home Moneyline''
      else if k = ''away'' then TypeName ''Away Moneyline''
      else if k = ''over'' then TypeName ''Over Total''
      else if k = ''under'' then TypeName ''Under Total''
      else Inherited k)"

text \<open>
  \<^verbatim>\<open>findBestValue\<close> takes the object \<^verbatim>\<open>edges\<close> as the list of its entries in iteration
  order, that is \<^verbatim>\<open>Object.entries(edges)\<close>. For an object with no entry \<^verbatim>\<open>values[0]\<close>
  is \<^verbatim>\<open>undefined\<close> and its destructuring raises a \<^verbatim>\<open>TypeError\<close>. The result \<^verbatim>\<open>null\<close>
  is \<open>None\<close>.
\<close>

definition findBestValue :: "(string \<times> jsnum) list \<Rightarrow> error + best_value option" where
  "findBestValue edges =
     (let values = js_sort (\<lambda>a b. js_sub (snd b) (snd a)) edges
      in case values of
           [] \<Rightarrow> Inl TypeError
         | (bestType, bestEdge) # _ \<Rightarrow>
             if js_le bestEdge (Num (2 / 100)) then Inr None
             else Inr (Some \<lparr>type = bestType, typeName = typeNames bestType,
                              edge = bestEdge, valueType = determineValueType bestEdge\<rparr>))"

record value_assessment =
  homeValue :: string
  awayValue :: string
  overValue :: string
  underValue :: string
  bestValue :: "best_value option"

definition analyzeBettingValue ::
  "game_odds jsref \<Rightarrow> game_odds jsref \<Rightarrow> error + value_assessment option" where
  "analyzeBettingValue marketOdds simulatedOdds =
     (case (marketOdds, simulatedOdds) of
        (Obj market, Obj simulated) \<Rightarrow>
          let marketProbs =
                \<lparr>home = oddsToProb (homeMoneyline market),
                 away = oddsToProb (awayMoneyline market),
                 over = oddsToProb (overOdds market),
                 under = oddsToProb (underOdds market)\<rparr>;
              simulatedProbs =
                \<lparr>home = oddsToProb (homeMoneyline simulated),
                 away = oddsToProb (awayMoneyline simulated),
                 over = oddsToProb (overOdds simulated),
                 under = oddsToProb (underOdds simulated)\<rparr>;
              edges =
                \<lparr>home = js_sub (home simulatedProbs) (home marketProbs),
                 away = js_sub (away simulatedProbs) (away marketProbs),
                 over = js_sub (over simulatedProbs) (over marketProbs),
                 under = js_sub (under simulatedProbs) (under marketProbs)\<rparr>
          in (case findBestValue (entries edges) of
                Inl err \<Rightarrow> Inl err
              | Inr best \<Rightarrow>
                  Inr (Some \<lparr>homeValue = determineValueType (home edges),
                             awayValue = determineValueType (away edges),
                             overValue = determineValueType (over edges),
                             underValue = determineValueType (under edges),
                             bestValue = best\<rparr>))
      | _ \<Rightarrow> Inr None)"

section \<open>The value analysis of the simulation service\<close>

record simulation =
  bettingInsights :: "game_odds jsref"

record edge_rating =
  edge :: jsnum
  rating :: string

text \<open>
  \<^verbatim>\<open>analyzeValue\<close> reads \<^verbatim>\<open>simulation.bettingInsights\<close> and then its properties: when
  the simulation has no betting insights the first property read raises a
  \<^verbatim>\<open>TypeError\<close>.
\<close>

definition SimulationService_analyzeValue ::
  "simulation jsref \<Rightarrow> game_odds jsref \<Rightarrow> error + edge_rating outcomes option" where
  "SimulationService_analyzeValue sim marketOdds =
     (case (sim, marketOdds) of
        (Obj simulation, Obj market) \<Rightarrow>
          (case bettingInsights simulation of
             Obj simulatedOdds \<Rightarrow>
               let homeEdge = SimulationService_calculateEdge
                     (homeMoneyline market) (homeMoneyline simulatedOdds);
                   awayEdge = SimulationService_calculateEdge
                     (awayMoneyline market) (awayMoneyline simulatedOdds);
                   overEdge = SimulationService_calculateEdge
                     (overOdds market) (overOdds simulatedOdds);
                   underEdge = SimulationService_calculateEdge
                     (underOdds market) (underOdds simulatedOdds)
               in Inr (Some
                    \<lparr>home = \<lparr>edge = homeEdge, rating = SimulationService_getValueRating homeEdge\<rparr>,
                     away = \<lparr>edge = awayEdge, rating = SimulationService_getValueRating awayEdge\<rparr>,
                     over = \<lparr>edge = overEdge, rating = SimulationService_getValueRating overEdge\<rparr>,
                     under = \<lparr>edge = underEdge, rating = SimulationService_getValueRating underEdge\<rparr>\<rparr>)
           | _ \<Rightarrow> Inl TypeError)
      | _ \<Rightarrow> Inr None)"

section \<open>Prop bets (services/gameService.js)\<close>

record prop_bet =
  playerName :: string
  betType :: string
  line :: jsnum
  recommendation :: string
  confidence :: jsnum
  reasoning :: string

text \<open>
  The ranking of the prop bets is the last step of \<^verbatim>\<open>_generateMockPropBets\<close>, applied to
  the list \<^verbatim>\<open>props\<close> built before it:
  \<^verbatim>\<open>props.sort((a, b) => b.confidence - a.confidence); return props;\<close>
\<close>

definition sortByConfidence :: "prop_bet list \<Rightarrow> prop_bet list" where
  "sortByConfidence props = js_sort (\<lambda>a b. js_sub (confidence b) (confidence a)) props"

section \<open>Finite numbers as reals\<close>

fun num_val :: "jsnum \<Rightarrow> real" where
  "num_val (Num x) = x"
| "num_val _ = 0"

section \<open>Arithmetic on finite numbers\<close>

lemma js_gt_Num [simp]: "js_gt (Num x) (Num y) = (y < x)"
  by (simp add: js_gt_def)

lemma js_le_Num [simp]: "js_le (Num x) (Num y) = (x \<le> y)"
  by (auto simp: js_le_def)

lemma js_ge_Num [simp]: "js_ge (Num x) (Num y) = (y \<le> x)"
  by (simp add: js_ge_def)

lemma js_sub_Num [simp]: "js_sub (Num x) (Num y) = Num (x - y)"
  by (simp add: js_sub_def)

lemma js_max_Num [simp]: "js_max (Num x) (Num y) = Num (max x y)"
  by (simp add: js_max_def max_def)

section \<open>Edge classification\<close>


section \<open>American odds to probability\<close>





section \<open>Rounding to binary64\<close>

lemma ulp_pos: "0 < ulp x"
  by (simp add: ulp_def)

lemma expo_ge: "- 1022 \<le> expo x"
  by (simp add: expo_def)

lemma ulp_minus [simp]: "ulp (- x) = ulp x"
  by (simp add: ulp_def expo_def)

lemma floor_log_bounds:
  assumes "x \<noteq> 0"
  shows "2 powr of_int \<lfloor>log 2 \<bar>x\<bar>\<rfloor> \<le> \<bar>x\<bar>" "\<bar>x\<bar> < 2 powr (of_int \<lfloor>log 2 \<bar>x\<bar>\<rfloor> + 1)"
proof -
  have "0 < \<bar>x\<bar>" using assms by simp
  then have "2 powr of_int \<lfloor>log 2 \<bar>x\<bar>\<rfloor> \<le> \<bar>x\<bar> \<and> \<bar>x\<bar> < 2 powr (of_int \<lfloor>log 2 \<bar>x\<bar>\<rfloor> + 1)"
    using floor_log_eq_powr_iff [of "\<bar>x\<bar>" 2 "\<lfloor>log 2 \<bar>x\<bar>\<rfloor>"] by simp
  then show "2 powr of_int \<lfloor>log 2 \<bar>x\<bar>\<rfloor> \<le> \<bar>x\<bar>" "\<bar>x\<bar> < 2 powr (of_int \<lfloor>log 2 \<bar>x\<bar>\<rfloor> + 1)"
    by simp_all
qed

lemma abs_less_expo:
  assumes "x \<noteq> 0"
  shows "\<bar>x\<bar> < 2 powr (of_int (expo x) + 1)"
proof -
  have "\<bar>x\<bar> < 2 powr (of_int \<lfloor>log 2 \<bar>x\<bar>\<rfloor> + 1)" using assms by (rule floor_log_bounds)
  also have "\<dots> \<le> 2 powr (of_int (expo x) + 1)" by (simp add: expo_def)
  finally show ?thesis .
qed

lemma expo_le_abs:
  assumes "2 powr (- 1022) \<le> \<bar>x\<bar>"
  shows "2 powr of_int (expo x) \<le> \<bar>x\<bar>"
proof -
  have pos: "0 < \<bar>x\<bar>" using assms by (smt (verit) powr_gt_zero)
  then have x: "x \<noteq> 0" by auto
  have "- 1022 \<le> log 2 \<bar>x\<bar>" using assms pos by (simp add: le_log_iff)
  then have "- 1022 \<le> \<lfloor>log 2 \<bar>x\<bar>\<rfloor>" by linarith
  then have "expo x = \<lfloor>log 2 \<bar>x\<bar>\<rfloor>" by (simp add: expo_def)
  then show ?thesis using floor_log_bounds(1) [OF x] by simp
qed

lemma expo_eqI:
  assumes "2 powr of_int e \<le> \<bar>x\<bar>" "\<bar>x\<bar> < 2 powr (of_int e + 1)" "- 1022 \<le> e"
  shows "expo x = e"
proof -
  have pos: "0 < \<bar>x\<bar>" using assms(1) by (smt (verit) powr_gt_zero)
  then have "\<lfloor>log 2 \<bar>x\<bar>\<rfloor> = e" using assms floor_log_eq_powr_iff [of "\<bar>x\<bar>" 2 e] by simp
  then show ?thesis using assms(3) by (simp add: expo_def)
qed

lemma expo_mono:
  assumes "\<bar>x\<bar> \<le> \<bar>y\<bar>" "x \<noteq> 0"
  shows "expo x \<le> expo y"
proof -
  have "log 2 \<bar>x\<bar> \<le> log 2 \<bar>y\<bar>" using assms by simp
  then have "\<lfloor>log 2 \<bar>x\<bar>\<rfloor> \<le> \<lfloor>log 2 \<bar>y\<bar>\<rfloor>" by (rule floor_mono)
  then show ?thesis by (simp add: expo_def)
qed

lemma round_even_near: "\<bar>of_int (round_even y) - y\<bar> \<le> 1 / 2"
  unfolding round_even_def Let_def by (auto; linarith)

lemma round_even_ge: "of_int k \<le> y \<Longrightarrow> k \<le> round_even y"
  unfolding round_even_def Let_def by (auto; linarith)

lemma round_even_le: "y \<le> of_int k \<Longrightarrow> round_even y \<le> k"
  unfolding round_even_def Let_def
  by (auto simp: not_less; linarith)

lemma round_even_of_int [simp]: "round_even (of_int k) = k"
  by (simp add: round_even_def)


lemma round_even_minus: "round_even (- y) = - round_even y"
proof -
  define n where "n = \<lfloor>y\<rfloor>"
  define f where "f = y - of_int n"
  have f: "0 \<le> f" "f < 1" unfolding f_def n_def by linarith+
  have y: "y = of_int n + f" by (simp add: f_def)
  have r: "round_even y = (if f < 1 / 2 then n else if 1 / 2 < f then n + 1 else if even n then n else n + 1)"
    by (simp add: round_even_def Let_def n_def f_def)
  show ?thesis
  proof (cases "f = 0")
    case True
    then have "y = of_int n" using y by simp
    then show ?thesis by (metis of_int_minus round_even_of_int)
  next
    case False
    then have "\<lfloor>- y\<rfloor> = - n - 1" unfolding y using f by linarith
    then have "round_even (- y) =
        (if 1 - f < 1 / 2 then - n - 1 else if 1 / 2 < 1 - f then - n
         else if even (- n - 1) then - n - 1 else - n)"
      by (simp add: round_even_def Let_def y)
    then show ?thesis using r by (auto simp: not_less)
  qed
qed

lemma pow_expo: "2 powr of_int (expo x) = 2 ^ 52 * ulp x"
proof -
  have "2 powr of_int (expo x) = 2 powr (52 + (of_int (expo x) - 52))" by simp
  also have "\<dots> = 2 powr 52 * ulp x" unfolding ulp_def by (rule powr_add)
  finally show ?thesis by simp
qed

lemma pow_expo1: "2 powr (of_int (expo x) + 1) = 2 ^ 53 * ulp x"
proof -
  have "of_int (expo x) + 1 = 53 + (real_of_int (expo x) - 52)" by simp
  then have "(2::real) powr (of_int (expo x) + 1) = 2 powr (53 + (of_int (expo x) - 52))"
    by (simp only:)
  also have "\<dots> = 2 powr 53 * ulp x" unfolding ulp_def by (rule powr_add)
  finally show ?thesis by simp
qed

lemma nearest_minus: "nearest (- x) = - nearest x"
  by (simp add: nearest_def round_even_minus)

lemma nearest_0 [simp]: "nearest 0 = 0"
  by (simp add: nearest_def round_even_def)

lemma nearest_err: "\<bar>nearest x - x\<bar> \<le> ulp x / 2"
proof -
  have "nearest x - x = (of_int (round_even (x / ulp x)) - x / ulp x) * ulp x"
    using ulp_pos [of x] by (simp add: nearest_def algebra_simps)
  then have "\<bar>nearest x - x\<bar> = \<bar>of_int (round_even (x / ulp x)) - x / ulp x\<bar> * ulp x"
    using ulp_pos [of x] by (simp add: abs_mult)
  also have "\<dots> \<le> 1 / 2 * ulp x"
    using round_even_near [of "x / ulp x"] ulp_pos [of x] by (intro mult_right_mono) simp_all
  finally show ?thesis by simp
qed

lemma nearest_rel:
  assumes "2 powr (- 1022) \<le> \<bar>x\<bar>"
  shows "\<bar>nearest x - x\<bar> \<le> \<bar>x\<bar> / 2 ^ 53"
proof -
  have "2 ^ 52 * ulp x \<le> \<bar>x\<bar>" using expo_le_abs [OF assms] by (simp add: pow_expo)
  then have "ulp x / 2 \<le> \<bar>x\<bar> / 2 ^ 53" by simp
  then show ?thesis using nearest_err [of x] by linarith
qed

lemma nearest_nonneg: "0 \<le> x \<Longrightarrow> 0 \<le> nearest x"
proof -
  assume "0 \<le> x"
  then have "of_int 0 \<le> x / ulp x" using ulp_pos [of x] by simp
  then have "0 \<le> round_even (x / ulp x)" by (rule round_even_ge)
  then show ?thesis using ulp_pos [of x] by (simp add: nearest_def)
qed

lemma nearest_ge_pow:
  assumes "2 powr (- 1022) \<le> x"
  shows "2 powr of_int (expo x) \<le> nearest x"
proof -
  have "2 powr of_int (expo x) \<le> \<bar>x\<bar>" using assms by (intro expo_le_abs) simp
  moreover have "0 < x" using assms by (smt (verit) powr_gt_zero)
  ultimately have "2 ^ 52 * ulp x \<le> x" by (simp add: pow_expo)
  then have "of_int (2 ^ 52) \<le> x / ulp x" using ulp_pos [of x] by (simp add: pos_le_divide_eq)
  then have "2 ^ 52 \<le> round_even (x / ulp x)" by (rule round_even_ge)
  then have "(of_int (2 ^ 52) :: real) \<le> of_int (round_even (x / ulp x))" by (simp only: of_int_le_iff)
  then have "2 ^ 52 \<le> (of_int (round_even (x / ulp x)) :: real)" by simp
  then have "2 ^ 52 * ulp x \<le> nearest x"
    unfolding nearest_def using ulp_pos [of x] by (intro mult_right_mono) simp_all
  then show ?thesis by (simp add: pow_expo)
qed

lemma nearest_le_pow:
  assumes "0 < x"
  shows "nearest x \<le> 2 powr (of_int (expo x) + 1)"
proof -
  have "\<bar>x\<bar> < 2 ^ 53 * ulp x" using abs_less_expo [of x] assms by (simp add: pow_expo1)
  then have "x / ulp x \<le> of_int (2 ^ 53)" using ulp_pos [of x] assms by (simp add: pos_divide_le_eq)
  then have "round_even (x / ulp x) \<le> 2 ^ 53" by (rule round_even_le)
  then have "(of_int (round_even (x / ulp x)) :: real) \<le> of_int (2 ^ 53)" by (simp only: of_int_le_iff)
  then have "(of_int (round_even (x / ulp x)) :: real) \<le> 2 ^ 53" by simp
  then have "nearest x \<le> 2 ^ 53 * ulp x"
    unfolding nearest_def using ulp_pos [of x] by (intro mult_right_mono) simp_all
  then show ?thesis by (simp add: pow_expo1)
qed


lemma expo_normal:
  assumes "- 1022 < expo x" "x \<noteq> 0"
  shows "2 powr of_int (expo x) \<le> \<bar>x\<bar>"
proof -
  have "expo x = \<lfloor>log 2 \<bar>x\<bar>\<rfloor>" using assms(1) by (simp add: expo_def max_def split: if_splits)
  then show ?thesis using floor_log_bounds(1) [OF assms(2)] by simp
qed

lemma nearest_fix:
  assumes "nearest a = a"
  shows "a / ulp a = of_int (round_even (a / ulp a))"
proof -
  have "a = of_int (round_even (a / ulp a)) * ulp a" using assms by (simp add: nearest_def)
  then have "a / ulp a = of_int (round_even (a / ulp a)) * ulp a / ulp a" by simp
  then show ?thesis using ulp_pos [of a] by simp
qed

lemma nearest_lo:
  assumes "0 < a" "a \<le> x" "nearest a = a"
  shows "a \<le> nearest x"
proof -
  have le: "expo a \<le> expo x" using assms by (intro expo_mono) simp_all
  show ?thesis
  proof (cases "expo a = expo x")
    case True
    then have u: "ulp a = ulp x" by (simp add: ulp_def)
    define k where "k = round_even (a / ulp a)"
    have k: "a / ulp x = of_int k" using nearest_fix [OF assms(3)] by (simp add: k_def u)
    have "a / ulp x \<le> x / ulp x" using assms(2) ulp_pos [of x] by (simp add: divide_right_mono)
    then have "k \<le> round_even (x / ulp x)" unfolding k by (rule round_even_ge)
    then have "(of_int k :: real) \<le> of_int (round_even (x / ulp x))" by (simp only: of_int_le_iff)
    then have "of_int k * ulp x \<le> nearest x"
      unfolding nearest_def using ulp_pos [of x] by (intro mult_right_mono) simp_all
    moreover have "a = of_int k * ulp x" using k ulp_pos [of x] by (simp add: field_simps)
    ultimately show ?thesis by simp
  next
    case False
    then have lt: "expo a < expo x" using le by simp
    then have "- 1022 < expo x" using expo_ge [of a] by linarith
    moreover have x: "0 < x" using assms by simp
    ultimately have "2 powr of_int (expo x) \<le> x" using expo_normal [of x] by simp
    moreover have "(2::real) powr (- 1022) \<le> 2 powr of_int (expo x)"
      using expo_ge [of x] by (intro powr_mono) simp_all
    ultimately have "2 powr (- 1022) \<le> x" by (rule order_trans [rotated])
    then have "2 powr of_int (expo x) \<le> nearest x" by (rule nearest_ge_pow)
    moreover have "a < 2 powr (of_int (expo a) + 1)" using abs_less_expo [of a] assms(1) by simp
    moreover have "(2::real) powr (of_int (expo a) + 1) \<le> 2 powr of_int (expo x)"
      using lt by simp
    ultimately show ?thesis by linarith
  qed
qed

lemma nearest_hi:
  assumes "0 < x" "x \<le> a" "nearest a = a"
  shows "nearest x \<le> a"
proof -
  have le: "expo x \<le> expo a" using assms by (intro expo_mono) simp_all
  show ?thesis
  proof (cases "expo x = expo a")
    case True
    then have u: "ulp a = ulp x" by (simp add: ulp_def)
    define k where "k = round_even (a / ulp a)"
    have k: "a / ulp x = of_int k" using nearest_fix [OF assms(3)] by (simp add: k_def u)
    have "x / ulp x \<le> a / ulp x" using assms(2) ulp_pos [of x] by (simp add: divide_right_mono)
    then have "round_even (x / ulp x) \<le> k" unfolding k by (rule round_even_le)
    then have "(of_int (round_even (x / ulp x)) :: real) \<le> of_int k" by (simp only: of_int_le_iff)
    then have "nearest x \<le> of_int k * ulp x"
      unfolding nearest_def using ulp_pos [of x] by (intro mult_right_mono) simp_all
    moreover have "a = of_int k * ulp x" using k ulp_pos [of x] by (simp add: field_simps)
    ultimately show ?thesis by simp
  next
    case False
    then have lt: "expo x < expo a" using le by simp
    then have "- 1022 < expo a" using expo_ge [of x] by linarith
    moreover have "0 < a" using assms by simp
    ultimately have "2 powr of_int (expo a) \<le> a" using expo_normal [of a] by simp
    moreover have "nearest x \<le> 2 powr (of_int (expo x) + 1)" using assms(1) by (rule nearest_le_pow)
    moreover have "(2::real) powr (of_int (expo x) + 1) \<le> 2 powr of_int (expo a)"
      using lt by simp
    ultimately show ?thesis by linarith
  qed
qed

lemma nearest_mono_lo:
  assumes "nearest a = a" "a \<le> x"
  shows "a \<le> nearest x"
proof (cases "0 < a")
  case True
  then show ?thesis using assms by (intro nearest_lo)
next
  case a: False
  show ?thesis
  proof (cases "0 \<le> x")
    case True
    then show ?thesis using nearest_nonneg [of x] a by linarith
  next
    case False
    then have "0 < - x" "- x \<le> - a" using assms(2) by simp_all
    moreover have "nearest (- a) = - a" using assms(1) by (simp add: nearest_minus)
    ultimately have "nearest (- x) \<le> - a" by (rule nearest_hi)
    then show ?thesis by (simp add: nearest_minus)
  qed
qed

lemma nearest_mono_hi:
  assumes "nearest a = a" "x \<le> a"
  shows "nearest x \<le> a"
proof -
  have "nearest (- a) = - a" using assms(1) by (simp add: nearest_minus)
  moreover have "- a \<le> - x" using assms(2) by simp
  ultimately have "- a \<le> nearest (- x)" by (rule nearest_mono_lo)
  then show ?thesis by (simp add: nearest_minus)
qed


lemma nearest_dyadic:
  assumes "\<bar>n\<bar> < 2 ^ 53" "- 1074 \<le> j"
  shows "nearest (of_int n * 2 powr of_int j) = of_int n * 2 powr of_int j"
proof (cases "n = 0")
  case True
  then show ?thesis by simp
next
  case False
  define x :: real where "x = of_int n * 2 powr of_int j"
  have x0: "x \<noteq> 0" using False by (simp add: x_def)
  have absx: "\<bar>x\<bar> = of_int \<bar>n\<bar> * 2 powr of_int j" by (simp add: x_def abs_mult)
  have "(of_int \<bar>n\<bar> :: real) < of_int (2 ^ 53)" using assms(1) by (simp only: of_int_less_iff)
  then have "\<bar>x\<bar> < 2 ^ 53 * 2 powr of_int j" unfolding absx by simp
  also have "\<dots> = 2 powr 53 * 2 powr of_int j" by simp
  also have "\<dots> = 2 powr (53 + of_int j)" by (simp only: powr_add)
  finally have ub: "\<bar>x\<bar> < 2 powr (53 + of_int j)" .
  have e: "expo x \<le> j + 52"
  proof (cases "- 1022 < expo x")
    case True
    then have "2 powr of_int (expo x) \<le> \<bar>x\<bar>" using x0 by (rule expo_normal)
    then have "(2::real) powr of_int (expo x) < 2 powr (53 + of_int j)" using ub by linarith
    then have "real_of_int (expo x) < 53 + of_int j" by simp
    then show ?thesis by linarith
  next
    case False
    then show ?thesis using assms(2) by linarith
  qed
  define d where "d = nat (j + 52 - expo x)"
  have d: "real d = of_int j - (of_int (expo x) - 52)" using e by (simp add: d_def)
  have "x / ulp x = of_int n * (2 powr of_int j / 2 powr (of_int (expo x) - 52))"
    by (simp add: x_def ulp_def)
  also have "2 powr of_int j / 2 powr (of_int (expo x) - 52)
      = (2::real) powr (of_int j - (of_int (expo x) - 52))"
    by (simp only: powr_diff)
  also have "\<dots> = 2 powr real d" by (simp only: d)
  also have "\<dots> = 2 ^ d" by (simp add: powr_realpow)
  finally have "x / ulp x = of_int (n * 2 ^ d)" by simp
  then have "round_even (x / ulp x) = n * 2 ^ d" by (simp only: round_even_of_int)
  then have "nearest x = of_int (n * 2 ^ d) * ulp x" by (simp add: nearest_def)
  also have "\<dots> = x / ulp x * ulp x" using \<open>x / ulp x = of_int (n * 2 ^ d)\<close> by simp
  also have "\<dots> = x" using ulp_pos [of x] by simp
  finally show ?thesis by (simp add: x_def)
qed

lemma nearest_int: "\<bar>n\<bar> < 2 ^ 53 \<Longrightarrow> nearest (of_int n) = of_int n"
  using nearest_dyadic [of n 0] by simp

lemma nearest_div_pow2:
  assumes "\<bar>n\<bar> < 2 ^ 53" "j \<le> 1074"
  shows "nearest (of_int n / 2 ^ j) = of_int n / 2 ^ j"
proof -
  have "(2::real) powr of_int (- int j) = inverse (2 powr real j)"
    by (simp add: powr_minus)
  also have "\<dots> = 1 / 2 ^ j" by (simp add: powr_realpow inverse_eq_divide)
  finally have "real_of_int n * 2 powr of_int (- int j) = of_int n / 2 ^ j" by simp
  then show ?thesis using nearest_dyadic [of n "- int j"] assms by simp
qed

lemma nearest_mult_pow2:
  assumes "\<bar>n\<bar> < 2 ^ 53"
  shows "nearest (of_int n * 2 ^ j) = of_int n * 2 ^ j"
proof -
  have "(2::real) powr of_int (int j) = 2 ^ j" by (simp add: powr_realpow)
  then show ?thesis using nearest_dyadic [of n "int j"] assms by simp
qed

lemma is_double_iff: "is_double a \<longleftrightarrow> nearest a = a \<and> \<bar>a\<bar> < 2 ^ 1024"
  by (auto simp: is_double_def fl_def js_signed_inf_def)

lemma is_double_int: "\<bar>n\<bar> < 2 ^ 53 \<Longrightarrow> is_double (of_int n)"
proof -
  assume n: "\<bar>n\<bar> < 2 ^ 53"
  then have "(of_int \<bar>n\<bar> :: real) < of_int (2 ^ 53)" by (simp only: of_int_less_iff)
  then have "\<bar>of_int n :: real\<bar> < 2 ^ 53" by simp
  moreover have "(2::real) ^ 53 < 2 ^ 1024" by simp
  ultimately have "\<bar>of_int n :: real\<bar> < 2 ^ 1024" by linarith
  then show ?thesis using nearest_int [OF n] by (simp add: is_double_iff)
qed

lemma is_double_div_pow2:
  assumes "\<bar>n\<bar> < 2 ^ 53" "j \<le> 1074"
  shows "is_double (of_int n / 2 ^ j)"
proof -
  have "(of_int \<bar>n\<bar> :: real) < of_int (2 ^ 53)" using assms(1) by (simp only: of_int_less_iff)
  then have "\<bar>of_int n :: real\<bar> < 2 ^ 53" by simp
  moreover have "(1::real) \<le> 2 ^ j" by simp
  then have "\<bar>of_int n / 2 ^ j :: real\<bar> \<le> \<bar>of_int n\<bar>"
    by (simp add: abs_divide divide_le_eq mult_le_cancel_left1)
  moreover have "(2::real) ^ 53 < 2 ^ 1024" by simp
  ultimately have "\<bar>of_int n / 2 ^ j :: real\<bar> < 2 ^ 1024" by linarith
  then show ?thesis using nearest_div_pow2 [OF assms] by (simp add: is_double_iff)
qed

lemma fl_between:
  assumes "is_double lo" "is_double hi" "lo \<le> x" "x \<le> hi"
  shows "\<exists>r. fl x = Num r \<and> lo \<le> r \<and> r \<le> hi"
proof -
  have lo: "lo \<le> nearest x" using assms(1,3) by (intro nearest_mono_lo) (simp_all add: is_double_iff)
  have hi: "nearest x \<le> hi" using assms(2,4) by (intro nearest_mono_hi) (simp_all add: is_double_iff)
  have "\<bar>lo\<bar> < 2 ^ 1024" "\<bar>hi\<bar> < 2 ^ 1024" using assms(1,2) by (simp_all add: is_double_iff)
  then have "\<bar>nearest x\<bar> < 2 ^ 1024" using lo hi by linarith
  then have "fl x = Num (nearest x)" by (simp add: fl_def)
  then show ?thesis using lo hi by blast
qed

lemma fl_exact: "is_double a \<Longrightarrow> fl a = Num a"
  by (simp add: is_double_def)

lemma fl_ge:
  assumes "is_double lo" "lo \<le> x"
  shows "fl x = PosInf \<or> (\<exists>r. fl x = Num r \<and> lo \<le> r)"
proof -
  have lo: "lo \<le> nearest x" using assms by (intro nearest_mono_lo) (simp_all add: is_double_iff)
  show ?thesis
  proof (cases "2 ^ 1024 \<le> \<bar>nearest x\<bar>")
    case True
    have "- (2 ^ 1024) < lo" using assms(1) by (simp add: is_double_iff abs_less_iff)
    then have big: "2 ^ 1024 \<le> nearest x" using True lo by linarith
    have "\<not> x < 0"
    proof
      assume "x < 0"
      then have "nearest x \<le> 0" by (intro nearest_mono_hi) simp_all
      then show False using big by (smt (verit) zero_less_power)
    qed
    then show ?thesis using True by (simp add: fl_def js_signed_inf_def)
  next
    case False
    then show ?thesis using lo by (simp add: fl_def)
  qed
qed

lemma fl_le:
  assumes "is_double hi" "x \<le> hi"
  shows "fl x = NegInf \<or> (\<exists>r. fl x = Num r \<and> r \<le> hi)"
proof -
  have hi: "nearest x \<le> hi" using assms by (intro nearest_mono_hi) (simp_all add: is_double_iff)
  show ?thesis
  proof (cases "2 ^ 1024 \<le> \<bar>nearest x\<bar>")
    case True
    have "hi < 2 ^ 1024" using assms(1) by (simp add: is_double_iff abs_less_iff)
    then have big: "nearest x \<le> - (2 ^ 1024)" using True hi by linarith
    have "x < 0"
    proof (rule ccontr)
      assume "\<not> x < 0"
      then have "0 \<le> nearest x" by (intro nearest_nonneg) simp
      then show False using big by (smt (verit) zero_less_power)
    qed
    then show ?thesis using True by (simp add: fl_def js_signed_inf_def)
  next
    case False
    then show ?thesis using hi by (simp add: fl_def)
  qed
qed

lemma fl_rel:
  assumes "2 powr (- 1022) \<le> \<bar>x\<bar>" "\<bar>x\<bar> \<le> 2 ^ 1023"
  shows "\<exists>r. fl x = Num r \<and> \<bar>r - x\<bar> \<le> \<bar>x\<bar> / 2 ^ 53"
proof -
  have err: "\<bar>nearest x - x\<bar> \<le> \<bar>x\<bar> / 2 ^ 53" using assms(1) by (rule nearest_rel)
  have "\<bar>x\<bar> / 2 ^ 53 \<le> \<bar>x\<bar>" by (simp add: divide_le_eq_1 field_simps)
  then have "\<bar>nearest x\<bar> \<le> 2 * \<bar>x\<bar>" using err by linarith
  moreover have "2 * (2::real) ^ 1023 = 2 ^ 1024" by simp
  ultimately have "\<bar>nearest x\<bar> \<le> 2 ^ 1024" using assms(2) by linarith
  moreover have "\<bar>nearest x\<bar> \<noteq> 2 ^ 1024"
  proof
    assume eq: "\<bar>nearest x\<bar> = 2 ^ 1024"
    have "\<bar>nearest x\<bar> \<le> \<bar>x\<bar> + \<bar>x\<bar> / 2 ^ 53" using err by linarith
    also have "\<dots> \<le> 2 ^ 1023 + 2 ^ 1023 / 2 ^ 53"
      using assms(2) by (intro add_mono divide_right_mono) simp_all
    also have "\<dots> < 2 ^ 1024" by simp
    finally show False using eq by simp
  qed
  ultimately have "\<bar>nearest x\<bar> < 2 ^ 1024" by linarith
  then have "fl x = Num (nearest x)" by (simp add: fl_def)
  then show ?thesis using err by blast
qed

lemma fl_overflow:
  assumes "2 ^ 1024 \<le> x"
  shows "fl x = PosInf"
proof -
  have "nearest (of_int 1 * 2 ^ 1024) = of_int 1 * 2 ^ 1024" by (intro nearest_mult_pow2) simp
  then have "nearest (2 ^ 1024) = 2 ^ 1024" by simp
  then have "2 ^ 1024 \<le> nearest x" using assms by (rule nearest_mono_lo)
  moreover have "0 < x" using assms by (smt (verit) zero_less_power)
  ultimately show ?thesis by (simp add: fl_def js_signed_inf_def)
qed


section \<open>Binary64 operations on finite numbers\<close>

lemma add64_Num: "add64 (Num x) (Num y) = fl (x + y)"
  by (simp add: add64_def)

lemma sub64_Num: "sub64 (Num x) (Num y) = fl (x - y)"
  by (simp add: sub64_def)

lemma mul64_Num: "mul64 (Num x) (Num y) = fl (x * y)"
  by (simp add: mul64_def)

lemma div64_Num: "y \<noteq> 0 \<Longrightarrow> div64 (Num x) (Num y) = fl (x / y)"
  by (simp add: div64_def)

lemma fl_0 [simp]: "fl 0 = Num 0"
  by (simp add: fl_def)

lemma fl_minus: "fl (- x) = js_neg (fl x)"
proof (cases "x = 0")
  case True
  then show ?thesis by simp
next
  case False
  then show ?thesis by (auto simp: fl_def nearest_minus js_signed_inf_def)
qed

lemma is_double_numeral: "(numeral w :: int) < 2 ^ 53 \<Longrightarrow> is_double (numeral w)"
  using is_double_int [of "numeral w"] by simp

lemma is_double_0 [simp]: "is_double 0"
  by (simp add: is_double_def)

lemma is_double_1 [simp]: "is_double 1"
  using is_double_int [of 1] by simp

lemma is_double_minus: "is_double (- a) = is_double a"
  by (auto simp: is_double_iff nearest_minus)

lemma is_double_pow2: "j \<le> 1023 \<Longrightarrow> is_double (2 ^ j)"
proof -
  assume "j \<le> 1023"
  then have "(2::real) ^ j < 2 ^ 1024" by (intro power_strict_increasing) simp_all
  moreover have "nearest (of_int 1 * 2 ^ j) = of_int 1 * 2 ^ j" by (intro nearest_mult_pow2) simp
  ultimately show ?thesis by (simp add: is_double_iff)
qed

lemma is_double_numeral_div: "(numeral w :: int) < 2 ^ 53 \<Longrightarrow> j \<le> 1074 \<Longrightarrow> is_double (numeral w / 2 ^ j)"
  using is_double_div_pow2 [of "numeral w" j] by simp

lemma is_double_inv_pow2: "j \<le> 1074 \<Longrightarrow> is_double (1 / 2 ^ j)"
  using is_double_div_pow2 [of 1 j] by simp

lemma pow_m1022: "(2::real) powr (- 1022) = 1 / 2 ^ 1022"
proof -
  have "(2::real) powr (- 1022) = inverse (2 powr 1022)" by (rule powr_minus)
  then show ?thesis by (simp add: inverse_eq_divide)
qed

lemma fl_pos:
  assumes "1 / 2 ^ 1000 \<le> x" "x \<le> 2 ^ 1000"
  obtains r where "fl x = Num r" "x * (1 - 1 / 2 ^ 53) \<le> r" "r \<le> x * (1 + 1 / 2 ^ 53)"
proof -
  have "(0::real) < 1 / 2 ^ 1000" by simp
  then have x: "0 < x" using assms(1) by linarith
  have "(1::real) / 2 ^ 1022 \<le> 1 / 2 ^ 1000" by simp
  then have "2 powr (- 1022) \<le> \<bar>x\<bar>" using assms(1) x unfolding pow_m1022 by linarith
  moreover have "(2::real) ^ 1000 \<le> 2 ^ 1023" by simp
  then have "\<bar>x\<bar> \<le> 2 ^ 1023" using assms x by linarith
  ultimately obtain r where r: "fl x = Num r" "\<bar>r - x\<bar> \<le> \<bar>x\<bar> / 2 ^ 53" using fl_rel by blast
  define e :: real where "e = 1 / 2 ^ 53"
  have "\<bar>x\<bar> / 2 ^ 53 = x * e" using x by (simp add: e_def)
  then have "\<bar>r - x\<bar> \<le> x * e" using r(2) by simp
  then have "x * (1 - e) \<le> r" "r \<le> x * (1 + e)"
    by (simp_all add: algebra_simps abs_le_iff)
  then show ?thesis using that r(1) unfolding e_def by blast
qed

lemma chain_hi:
  fixes r x y g1 g2 :: real
  assumes "r \<le> x * g1" "x \<le> y * g2" "0 \<le> g1"
  shows "r \<le> y * (g2 * g1)"
proof -
  have "x * g1 \<le> y * g2 * g1" using assms(2,3) by (rule mult_right_mono)
  then show ?thesis using assms(1) by (simp add: mult.assoc)
qed

lemma chain_lo:
  fixes r x y g1 g2 :: real
  assumes "x * g1 \<le> r" "y * g2 \<le> x" "0 \<le> g1"
  shows "y * (g2 * g1) \<le> r"
proof -
  have "y * g2 * g1 \<le> x * g1" using assms(2,3) by (rule mult_right_mono)
  then show ?thesis using assms(1) by (simp add: mult.assoc)
qed

lemma js_round_Num: "js_round (Num z) = Num (of_int \<lfloor>z + 1 / 2\<rfloor>)"
  by simp

lemma round_even_unique:
  assumes "\<bar>y - of_int n\<bar> < 1 / 2"
  shows "round_even y = n"
proof -
  have "\<bar>of_int (round_even y) - y\<bar> \<le> 1 / 2" by (rule round_even_near)
  then have "\<bar>real_of_int (round_even y) - of_int n\<bar> < 1" using assms by linarith
  then have "\<bar>real_of_int (round_even y - n)\<bar> < real_of_int 1" by simp
  then have "real_of_int \<bar>round_even y - n\<bar> < real_of_int 1" by (simp only: of_int_abs)
  then have "\<bar>round_even y - n\<bar> < 1" by (simp only: of_int_less_iff)
  then show ?thesis by linarith
qed

lemma round_even_tie:
  assumes "y = of_int n + 1 / 2" "even n"
  shows "round_even y = n"
proof -
  have "\<lfloor>y\<rfloor> = n" unfolding assms(1) by linarith
  then show ?thesis using assms by (simp add: round_even_def Let_def)
qed

lemma fl_scaled:
  fixes y :: real
  assumes y: "2 ^ 52 \<le> y" "y < 2 ^ 53" and j: "j \<le> 1074" and n: "round_even y = n"
  shows "fl (y / 2 ^ j) = Num (of_int n / 2 ^ j)"
proof -
  define x where "x = y / 2 ^ j"
  define e :: int where "e = 52 - int j"
  have y0: "0 < y" using y(1) by (smt (verit) zero_less_power)
  have x0: "0 < x" using y0 by (simp add: x_def)
  have pj: "(2::real) powr (- real j) = 1 / 2 ^ j"
    by (simp add: powr_minus powr_realpow inverse_eq_divide)
  have "(2::real) powr of_int e = 2 powr (52 + (- real j))" by (simp add: e_def)
  also have "\<dots> = 2 powr 52 * 2 powr (- real j)" by (rule powr_add)
  finally have pe: "(2::real) powr of_int e = 2 ^ 52 / 2 ^ j" by (simp add: pj)
  have "(2::real) powr (of_int e + 1) = 2 powr (53 + (- real j))" by (simp add: e_def)
  also have "\<dots> = 2 powr 53 * 2 powr (- real j)" by (rule powr_add)
  finally have pe1: "(2::real) powr (of_int e + 1) = 2 ^ 53 / 2 ^ j" by (simp add: pj)
  have "\<bar>x\<bar> = x" using x0 by (simp only: abs_of_pos)
  then have ax: "\<bar>x\<bar> = y / 2 ^ j" by (simp only: x_def)
  have "2 ^ 52 / 2 ^ j \<le> y / 2 ^ j" using y(1) by (intro divide_right_mono) simp_all
  then have "2 powr of_int e \<le> \<bar>x\<bar>" by (simp only: pe ax)
  moreover have "y / 2 ^ j < 2 ^ 53 / 2 ^ j"
    using y(2) by (intro divide_strict_right_mono) simp_all
  then have "\<bar>x\<bar> < 2 powr (of_int e + 1)" by (simp only: pe1 ax)
  moreover have "- 1022 \<le> e" using j by (simp add: e_def)
  ultimately have "expo x = e" by (rule expo_eqI)
  then have "ulp x = 2 powr (- real j)" by (simp add: ulp_def e_def)
  then have u: "ulp x = 1 / 2 ^ j" by (simp only: pj)
  have "x / ulp x = y" unfolding u by (simp add: x_def)
  then have nx: "nearest x = of_int n / 2 ^ j" by (simp add: nearest_def n u)
  have "y \<le> of_int (2 ^ 53)" using y(2) by simp
  then have "n \<le> 2 ^ 53" unfolding n [symmetric] by (rule round_even_le)
  moreover have "of_int 0 \<le> y" using y0 by simp
  then have "0 \<le> n" unfolding n [symmetric] by (rule round_even_ge)
  ultimately have "real_of_int 0 \<le> real_of_int n" "real_of_int n \<le> real_of_int (2 ^ 53)"
    by (simp_all only: of_int_le_iff)
  then have b: "0 \<le> real_of_int n" "real_of_int n \<le> 2 ^ 53" by simp_all
  have "(1::real) \<le> 2 ^ j" by simp
  then have "real_of_int n / 2 ^ j \<le> real_of_int n"
    using b(1) by (simp add: divide_le_eq mult_le_cancel_left1)
  moreover have "0 \<le> real_of_int n / 2 ^ j" using b(1) by simp
  moreover have "(2::real) ^ 53 < 2 ^ 1024" by simp
  ultimately have "\<bar>real_of_int n / 2 ^ j\<bar> < 2 ^ 1024" using b(2) by linarith
  then show ?thesis unfolding x_def [symmetric] by (simp add: fl_def nx)
qed

section \<open>Probability to American odds\<close>

lemma fl_step:
  assumes "is_double lo" "is_double hi" "lo \<le> x" "x \<le> hi" "1 / 2 ^ 30 \<le> lo" "hi \<le> 2 ^ 30"
  obtains r where "fl x = Num r" "lo \<le> r" "r \<le> hi"
    "x * (1 - 1 / 2 ^ 53) \<le> r" "r \<le> x * (1 + 1 / 2 ^ 53)"
proof -
  have "(1::real) / 2 ^ 1000 \<le> 1 / 2 ^ 30" "(2::real) ^ 30 \<le> 2 ^ 1000" by simp_all
  then have "1 / 2 ^ 1000 \<le> x" "x \<le> 2 ^ 1000" using assms(3-6) by linarith+
  then obtain r where r: "fl x = Num r" "x * (1 - 1 / 2 ^ 53) \<le> r" "r \<le> x * (1 + 1 / 2 ^ 53)"
    by (rule fl_pos)
  obtain r' where "fl x = Num r'" "lo \<le> r'" "r' \<le> hi"
    using fl_between [OF assms(1-4)] by blast
  then show ?thesis using that r by simp
qed

lemma round_half_near: "\<bar>of_int \<lfloor>z + 1 / 2\<rfloor> - z\<bar> \<le> 1 / (2::real)"
  by linarith

lemma gain4:
  fixes e :: real
  assumes "e = 1 / 2 ^ 53"
  shows "(1 + e) * (1 + e) * (1 + e) * (1 + e) \<le> 1 + 1 / (2 * 10 ^ 15)"
    and "1 - 1 / (2 * 10 ^ 15) \<le> (1 - e) * (1 - e) * (1 - e) * (1 - e)"
  unfolding assms by simp_all

lemma ipta_dog:
  fixes p :: real
  assumes p: "1 / 2 ^ 20 \<le> p" "p \<le> 1 / 2"
  shows "\<exists>k::int. impliedProbabilityToAmerican (Num p) = Inr (Num (5 * of_int k))
           \<and> 20 \<le> k \<and> k \<le> 20971520
           \<and> \<bar>5 * of_int k - 100 * (1 - p) / p\<bar> \<le> 5 / 2 + (100 * (1 - p) / p) / 10 ^ 15"
proof -
  define e :: real where "e = 1 / 2 ^ 53"
  have e: "0 \<le> 1 - e" "0 \<le> 1 + e" by (simp_all add: e_def)
  have p0: "0 < p" using p(1) by (smt (verit) divide_pos_pos zero_less_power zero_less_one)
  define od where "od = 100 * (1 - p) / p"
  have od0: "0 < od" using p p0 by (simp add: od_def)
  obtain q where q: "fl (1 - p) = Num q" "1 / 2 \<le> q" "q \<le> 1"
      "(1 - p) * (1 - e) \<le> q" "q \<le> (1 - p) * (1 + e)"
    unfolding e_def using p p0
    by (rule_tac lo = "1 / 2" and hi = 1 and x = "1 - p" in fl_step)
       (simp_all add: is_double_inv_pow2 [of 1, simplified])
  obtain n where n: "fl (100 * q) = Num n" "50 \<le> n" "n \<le> 100"
      "100 * q * (1 - e) \<le> n" "n \<le> 100 * q * (1 + e)"
    unfolding e_def using q(2,3)
    by (rule_tac lo = 50 and hi = 100 and x = "100 * q" in fl_step)
       (simp_all add: is_double_numeral)
  have "100 * p \<le> n" using n(2) p(2) by simp
  then have d_lo: "100 \<le> n / p" using p0 by (simp add: pos_le_divide_eq)
  have "n \<le> 104857600 * p" using n(3) p(1) by simp
  then have d_hi: "n / p \<le> 104857600" using p0 by (simp add: pos_divide_le_eq)
  obtain d where d: "fl (n / p) = Num d" "100 \<le> d" "d \<le> 104857600"
      "n / p * (1 - e) \<le> d" "d \<le> n / p * (1 + e)"
    unfolding e_def using d_lo d_hi
    by (rule_tac lo = 100 and hi = 104857600 and x = "n / p" in fl_step)
       (simp_all add: is_double_numeral)
  obtain z where z: "fl (d / 5) = Num z" "20 \<le> z" "z \<le> 20971520"
      "d / 5 * (1 - e) \<le> z" "z \<le> d / 5 * (1 + e)"
    unfolding e_def using d(2,3)
    by (rule_tac lo = 20 and hi = 20971520 and x = "d / 5" in fl_step)
       (simp_all add: is_double_numeral)
  define k where "k = \<lfloor>z + 1 / 2\<rfloor>"
  have k: "20 \<le> k" "k \<le> 20971520" using z(2,3) unfolding k_def by linarith+
  have kz: "\<bar>of_int k - z\<bar> \<le> 1 / 2" unfolding k_def by (rule round_half_near)
  have "\<bar>k * 5\<bar> < 2 ^ 53" using k by simp
  then have "fl (of_int (k * 5)) = Num (of_int (k * 5))" by (intro fl_exact is_double_int)
  then have res: "fl (of_int k * 5) = Num (5 * of_int k)" by (simp add: mult.commute)
  have val: "impliedProbabilityToAmerican (Num p) = Inr (Num (5 * of_int k))"
    using p p0 d(2) q(2)
    by (simp add: impliedProbabilityToAmerican_def sub64_Num mul64_Num div64_Num q(1) n(1) d(1) z(1)
        k_def [symmetric] res)
  define g1 where "g1 = 1 + e"
  define g2 where "g2 = g1 * g1"
  define g3 where "g3 = g2 * g1"
  define g4 where "g4 = g3 * g1"
  define l1 where "l1 = 1 - e"
  define l2 where "l2 = l1 * l1"
  define l3 where "l3 = l2 * l1"
  define l4 where "l4 = l3 * l1"
  have g1: "0 \<le> g1" and l1: "0 \<le> l1" using e by (simp_all add: g1_def l1_def)
  have n_up: "n \<le> 100 * (1 - p) * g2"
    unfolding g2_def using n(5) [folded g1_def] _ g1
    by (rule chain_hi) (use q(5) [folded g1_def] in \<open>simp add: algebra_simps\<close>)
  have d_up: "d \<le> od * g3"
    unfolding g3_def using d(5) [folded g1_def] _ g1
  proof (rule chain_hi)
    have "n / p \<le> 100 * (1 - p) * g2 / p"
      using n_up p0 by (simp add: divide_right_mono)
    then show "n / p \<le> od * g2" by (simp add: od_def)
  qed
  have z_up: "z \<le> od / 5 * g4"
    unfolding g4_def using z(5) [folded g1_def] _ g1
    by (rule chain_hi) (use d_up in simp)
  have n_dn: "100 * (1 - p) * l2 \<le> n"
    unfolding l2_def using n(4) [folded l1_def] _ l1
    by (rule chain_lo) (use q(4) [folded l1_def] in \<open>simp add: algebra_simps\<close>)
  have d_dn: "od * l3 \<le> d"
    unfolding l3_def using d(4) [folded l1_def] _ l1
  proof (rule chain_lo)
    have "100 * (1 - p) * l2 / p \<le> n / p"
      using n_dn p0 by (simp add: divide_right_mono)
    then show "od * l2 \<le> n / p" by (simp add: od_def)
  qed
  have z_dn: "od / 5 * l4 \<le> z"
    unfolding l4_def using z(4) [folded l1_def] _ l1
    by (rule chain_lo) (use d_dn in simp)
  have "g4 \<le> 1 + 1 / (2 * 10 ^ 15)"
    using gain4(1) [OF e_def] by (simp add: g4_def g3_def g2_def g1_def)
  then have "od / 5 * g4 \<le> od / 5 * (1 + 1 / (2 * 10 ^ 15))"
    using od0 by (intro mult_left_mono) simp_all
  then have up: "5 * z \<le> od + od / (2 * 10 ^ 15)" using z_up by (simp add: algebra_simps)
  have "1 - 1 / (2 * 10 ^ 15) \<le> l4"
    using gain4(2) [OF e_def] by (simp add: l4_def l3_def l2_def l1_def)
  then have "od / 5 * (1 - 1 / (2 * 10 ^ 15)) \<le> od / 5 * l4"
    using od0 by (intro mult_left_mono) simp_all
  then have dn: "od - od / (2 * 10 ^ 15) \<le> 5 * z" using z_dn by (simp add: algebra_simps)
  have t: "od / (2 * 10 ^ 15) \<le> od / 10 ^ 15" using od0 by (simp add: field_simps)
  have "5 * of_int k - od \<le> 5 / 2 + od / 10 ^ 15" using up dn kz t by linarith
  moreover have "- (5 * of_int k - od) \<le> 5 / 2 + od / 10 ^ 15" using up dn kz t by linarith
  ultimately have "\<bar>5 * of_int k - od\<bar> \<le> 5 / 2 + od / 10 ^ 15" by (rule abs_leI)
  then show ?thesis using val k unfolding od_def by blast
qed


lemma gain4':
  fixes e :: real
  assumes "e = 1 / 2 ^ 53"
  shows "(1 + e) / (1 - e) * (1 + e) * (1 + e) \<le> 1 + 1 / (2 * 10 ^ 15)"
    and "1 - 1 / (2 * 10 ^ 15) \<le> (1 - e) / (1 + e) * (1 - e) * (1 - e)"
  unfolding assms by simp_all

lemma ipta_fav:
  fixes p :: real
  assumes p: "1 / 2 < p" "p \<le> 1 - 1 / 2 ^ 20"
  shows "\<exists>k::int. impliedProbabilityToAmerican (Num p) = Inr (Num (5 * of_int k))
           \<and> - 20971520 \<le> k \<and> k \<le> - 20
           \<and> \<bar>5 * of_int k - (- 100 * p / (1 - p))\<bar> \<le> 5 / 2 + (100 * p / (1 - p)) / 10 ^ 15"
proof -
  define e :: real where "e = 1 / 2 ^ 53"
  define g1 where "g1 = 1 + e"
  define l1 where "l1 = 1 - e"
  have g1: "0 \<le> g1" "0 < g1" and l1: "0 \<le> l1" "0 < l1" by (simp_all add: g1_def l1_def e_def)
  have p1: "p < 1" using p(2) by (smt (verit) divide_pos_pos zero_less_power zero_less_one)
  define od where "od = 100 * p / (1 - p)"
  have od0: "0 < od" using p p1 by (simp add: od_def)
  obtain m where m: "fl (100 * p) = Num m" "50 \<le> m" "m \<le> 100"
      "100 * p * l1 \<le> m" "m \<le> 100 * p * g1"
    unfolding g1_def l1_def e_def using p p1
    by (rule_tac lo = 50 and hi = 100 and x = "100 * p" in fl_step)
       (simp_all add: is_double_numeral)
  have m': "fl (- (100 * p)) = Num (- m)" by (simp add: fl_minus m(1))
  obtain q where q: "fl (1 - p) = Num q" "1 / 2 ^ 20 \<le> q" "q \<le> 1 / 2"
      "(1 - p) * l1 \<le> q" "q \<le> (1 - p) * g1"
    unfolding g1_def l1_def e_def using p is_double_inv_pow2 [of 20] is_double_inv_pow2 [of 1]
    by (rule_tac lo = "1 / 2 ^ 20" and hi = "1 / 2" and x = "1 - p" in fl_step) simp_all
  have q0: "0 < q" using q(2) by (smt (verit) divide_pos_pos zero_less_power zero_less_one)
  have "100 * q \<le> m" using m(2) q(3) by simp
  then have d_lo: "100 \<le> m / q" using q0 by (simp add: pos_le_divide_eq)
  have "m \<le> 104857600 * q" using m(3) q(2) by simp
  then have d_hi: "m / q \<le> 104857600" using q0 by (simp add: pos_divide_le_eq)
  obtain d where d: "fl (m / q) = Num d" "100 \<le> d" "d \<le> 104857600"
      "m / q * l1 \<le> d" "d \<le> m / q * g1"
    unfolding g1_def l1_def e_def using d_lo d_hi
    by (rule_tac lo = 100 and hi = 104857600 and x = "m / q" in fl_step)
       (simp_all add: is_double_numeral)
  have d': "fl (- (m / q)) = Num (- d)" by (simp add: fl_minus d(1))
  obtain z where z: "fl (d / 5) = Num z" "20 \<le> z" "z \<le> 20971520"
      "d / 5 * l1 \<le> z" "z \<le> d / 5 * g1"
    unfolding g1_def l1_def e_def using d(2,3)
    by (rule_tac lo = 20 and hi = 20971520 and x = "d / 5" in fl_step)
       (simp_all add: is_double_numeral)
  have z': "fl (- (d / 5)) = Num (- z)" by (simp add: fl_minus z(1))
  define k where "k = \<lfloor>1 / 2 - z\<rfloor>"
  have k: "- 20971520 \<le> k" "k \<le> - 20" using z(2,3) unfolding k_def by linarith+
  have kz: "\<bar>of_int k - (- z)\<bar> \<le> 1 / 2" unfolding k_def by linarith
  have "\<bar>k * 5\<bar> < 2 ^ 53" using k by simp
  then have "fl (of_int (k * 5)) = Num (of_int (k * 5))" by (intro fl_exact is_double_int)
  then have res: "fl (of_int k * 5) = Num (5 * of_int k)" by (simp add: mult.commute)
  have val: "impliedProbabilityToAmerican (Num p) = Inr (Num (5 * of_int k))"
    using p p1 q0
    by (simp add: impliedProbabilityToAmerican_def sub64_Num mul64_Num div64_Num q(1) m' d' z'
        k_def [symmetric] res)
  have pq: "0 < (1 - p) * l1" using p1 l1(2) by simp
  have p0: "0 < p" using p(1) by simp
  have "0 \<le> 100 * p * g1" using p0 g1(1) by simp
  then have "m / q \<le> 100 * p * g1 / ((1 - p) * l1)"
    using m(5) q(4) pq by (intro frac_le) simp_all
  also have "\<dots> = od * (g1 / l1)" by (simp add: od_def)
  finally have x_up: "m / q \<le> od * (g1 / l1)" .
  have d_up: "d \<le> od * (g1 / l1 * g1)"
    using d(5) x_up g1(1) by (rule chain_hi)
  have z_up: "z \<le> od / 5 * (g1 / l1 * g1 * g1)"
    using z(5) _ g1(1) by (rule chain_hi) (use d_up in simp)
  have pg: "0 < (1 - p) * g1" using p1 g1(2) by simp
  have "0 \<le> m" using m(2) by simp
  then have "100 * p * l1 / ((1 - p) * g1) \<le> m / q"
    using m(4) q(5) q0 by (intro frac_le) simp_all
  moreover have "100 * p * l1 / ((1 - p) * g1) = od * (l1 / g1)" by (simp add: od_def)
  ultimately have x_dn: "od * (l1 / g1) \<le> m / q" by simp
  have d_dn: "od * (l1 / g1 * l1) \<le> d"
    using d(4) x_dn l1(1) by (rule chain_lo)
  have z_dn: "od / 5 * (l1 / g1 * l1 * l1) \<le> z"
    using z(4) _ l1(1) by (rule chain_lo) (use d_dn in simp)
  have "g1 / l1 * g1 * g1 \<le> 1 + 1 / (2 * 10 ^ 15)"
    using gain4'(1) [OF e_def] by (simp add: g1_def l1_def)
  then have "od / 5 * (g1 / l1 * g1 * g1) \<le> od / 5 * (1 + 1 / (2 * 10 ^ 15))"
    using od0 by (intro mult_left_mono) simp_all
  with z_up have "z \<le> od / 5 * (1 + 1 / (2 * 10 ^ 15))" by (rule order_trans)
  then have up: "5 * z \<le> od + od / (2 * 10 ^ 15)" by (simp add: algebra_simps)
  have "1 - 1 / (2 * 10 ^ 15) \<le> l1 / g1 * l1 * l1"
    using gain4'(2) [OF e_def] by (simp add: g1_def l1_def)
  then have "od / 5 * (1 - 1 / (2 * 10 ^ 15)) \<le> od / 5 * (l1 / g1 * l1 * l1)"
    using od0 by (intro mult_left_mono) simp_all
  then have "od / 5 * (1 - 1 / (2 * 10 ^ 15)) \<le> z" using z_dn by (rule order_trans)
  then have dn: "od - od / (2 * 10 ^ 15) \<le> 5 * z" by (simp add: algebra_simps)
  have t: "od / (2 * 10 ^ 15) \<le> od / 10 ^ 15" using od0 by (simp add: field_simps)
  have "5 * of_int k + od \<le> 5 / 2 + od / 10 ^ 15" using up dn kz t by linarith
  moreover have "- (5 * of_int k + od) \<le> 5 / 2 + od / 10 ^ 15" using up dn kz t by linarith
  ultimately have "\<bar>5 * of_int k + od\<bar> \<le> 5 / 2 + od / 10 ^ 15" by (rule abs_leI)
  moreover have "- 100 * p / (1 - p) = - od" by (simp add: od_def)
  ultimately have "\<bar>5 * of_int k - (- 100 * p / (1 - p))\<bar> \<le> 5 / 2 + od / 10 ^ 15" by simp
  then show ?thesis using val k unfolding od_def by blast
qed

lemma ipta_error_iff:
  "(impliedProbabilityToAmerican p = Inl InvalidProbabilityError) = (js_le p (Num 0) \<or> js_ge p (Num 1))"
  "isl (impliedProbabilityToAmerican p) = (js_le p (Num 0) \<or> js_ge p (Num 1))"
  by (simp_all add: impliedProbabilityToAmerican_def Let_def)

lemma is_double_half: "is_double (1 / 2)"
  using is_double_inv_pow2 [of 1] by simp

lemma ipta_overflow: "impliedProbabilityToAmerican (Num (1 / 2 ^ 1020)) = Inr PosInf"
proof -
  define p :: real where "p = 1 / 2 ^ 1020"
  have p: "0 < p" "p \<le> 1 / 2" "p < 1" by (simp_all add: p_def)
  obtain q where q: "fl (1 - p) = Num q" "1 / 2 \<le> q" "q \<le> 1"
    using fl_between [of "1 / 2" 1 "1 - p"] p is_double_half by auto
  obtain n where n: "fl (100 * q) = Num n" "50 \<le> n" "n \<le> 100"
    using fl_between [of 50 100 "100 * q"] q(2,3) by (auto simp: is_double_numeral)
  have "16 * 2 ^ 1020 \<le> n * 2 ^ 1020" using n(2) by simp
  moreover have "(16::real) * 2 ^ 1020 = 2 ^ 1024" by simp
  moreover have "n / p = n * 2 ^ 1020" by (simp add: p_def)
  ultimately have "2 ^ 1024 \<le> n / p" by simp
  then have d: "fl (n / p) = PosInf" by (rule fl_overflow)
  have "impliedProbabilityToAmerican (Num p) = Inr PosInf"
    using p by (simp add: impliedProbabilityToAmerican_def sub64_Num mul64_Num div64_Num q(1) n(1) d
        div64_def mul64_def js_signed_inf_def)
  then show ?thesis by (simp add: p_def)
qed

lemma ipta_three_quarters: "impliedProbabilityToAmerican (Num (3 / 4)) = Inr (Num (- 300))"
proof -
  have a: "fl (- 75) = Num (- 75)" "fl (1 / 4) = Num (1 / 4)" "fl (- 300) = Num (- 300)"
    "fl (- 60) = Num (- 60)"
    using is_double_int [of "- 75"] is_double_int [of "- 300"] is_double_int [of "- 60"]
      is_double_inv_pow2 [of 2]
    by (simp_all add: is_double_def)
  have "\<lfloor>- 60 + 1 / 2 :: real\<rfloor> = - 60" by linarith
  then show ?thesis
    by (simp add: impliedProbabilityToAmerican_def sub64_Num mul64_Num div64_Num a)
qed

lemma ipta_one_quarter: "impliedProbabilityToAmerican (Num (1 / 4)) = Inr (Num 300)"
proof -
  have a: "fl 75 = Num 75" "fl (3 / 4) = Num (3 / 4)" "fl 300 = Num 300" "fl 60 = Num 60"
    using is_double_int [of 75] is_double_int [of 300] is_double_int [of 60]
      is_double_div_pow2 [of 3 2]
    by (simp_all add: is_double_def)
  have "\<lfloor>60 + 1 / 2 :: real\<rfloor> = 60" by linarith
  then show ?thesis
    by (simp add: impliedProbabilityToAmerican_def sub64_Num mul64_Num div64_Num a)
qed

text \<open>The doubles written \<^verbatim>\<open>0.32\<close> and \<^verbatim>\<open>0.68\<close>, whose odds are next to the
  middle \<open>212.5\<close> of two multiples of 5, are converted to \<open>215\<close> and \<open>-215\<close>.\<close>

lemma ipta_032:
  "impliedProbabilityToAmerican (Num (5764607523034235 / 2 ^ 54)) = Inr (Num 215)"
proof -
  define p :: real where "p = 5764607523034235 / 2 ^ 54"
  define q :: real where "q = 6124895493223874 / 2 ^ 53"
  define d :: real where "d = 425 / 2"
  define z :: real where "z = 85 / 2"
  have p: "0 < p" "p < 1" "p \<le> 1 / 2" by (simp_all add: p_def)
  have "round_even (12249790986447749 / 2) = 6124895493223874"
    by (rule round_even_tie) simp_all
  then have fq: "fl (1 - p) = Num q"
    using fl_scaled [of "12249790986447749 / 2" 53 6124895493223874] by (simp add: p_def q_def)
  have "round_even (76561193665298425 / 16) = 4785074604081152"
    by (rule round_even_unique) simp
  then have fm: "fl (100 * q) = Num 68"
    using fl_scaled [of "76561193665298425 / 16" 46 4785074604081152] by (simp add: q_def)
  have "round_even (68 * 2 ^ 99 / 5764607523034235) = 7476679068876800"
    by (rule round_even_unique) simp
  then have fd: "fl (68 / p) = Num d"
    using fl_scaled [of "68 * 2 ^ 99 / 5764607523034235" 45 7476679068876800]
    by (simp add: p_def d_def)
  have fz: "fl (d / 5) = Num z" using is_double_div_pow2 [of 85 1]
    by (simp add: is_double_def d_def z_def)
  have r: "\<lfloor>z + 1 / 2\<rfloor> = 43" by (simp add: z_def)
  have t: "fl 215 = Num 215" using is_double_int [of 215] by (simp add: is_double_def)
  have "impliedProbabilityToAmerican (Num p) = Inr (Num 215)"
    using p
    by (simp add: impliedProbabilityToAmerican_def Let_def sub64_Num mul64_Num div64_Num
        fq fm fd fz js_round_Num r t)
  then show ?thesis by (simp only: p_def)
qed


lemma ipta_068:
  "impliedProbabilityToAmerican (Num (6124895493223875 / 2 ^ 53)) = Inr (Num (- 215))"
proof -
  define p :: real where "p = 6124895493223875 / 2 ^ 53"
  define q :: real where "q = 2882303761517117 / 2 ^ 53"
  define d :: real where "d = 7476679068876801 / 2 ^ 45"
  define z :: real where "z = 5981343255101441 / 2 ^ 47"
  have p: "0 < p" "p < 1" "1 / 2 < p" by (simp_all add: p_def)
  have q0: "q \<noteq> 0" by (simp add: q_def)
  have "round_even (153122387330596875 / 32) = 4785074604081152"
    by (rule round_even_unique) simp
  then have fm: "fl (100 * p) = Num 68"
    using fl_scaled [of "153122387330596875 / 32" 46 4785074604081152] by (simp add: p_def)
  have fq: "fl (1 - p) = Num q" using is_double_div_pow2 [of 2882303761517117 53]
    by (simp add: is_double_def p_def q_def)
  have "round_even (68 * 2 ^ 98 / 2882303761517117) = 7476679068876801"
    by (rule round_even_unique) simp
  then have fd: "fl (68 / q) = Num d"
    using fl_scaled [of "68 * 2 ^ 98 / 2882303761517117" 45 7476679068876801]
    by (simp add: q_def d_def)
  have "round_even (29906716275507204 / 5) = 5981343255101441"
    by (rule round_even_unique) simp
  then have fz: "fl (d / 5) = Num z"
    using fl_scaled [of "29906716275507204 / 5" 47 5981343255101441]
    by (simp add: d_def z_def)
  have r: "\<lfloor>- z + 1 / 2\<rfloor> = - 43" "\<lfloor>1 / 2 - z\<rfloor> = - 43" by (simp_all add: z_def)
  have t: "fl 215 = Num 215" using is_double_int [of 215] by (simp add: is_double_def)
  have "impliedProbabilityToAmerican (Num p) = Inr (Num (- 215))"
    using p q0
    by (simp add: impliedProbabilityToAmerican_def Let_def sub64_Num mul64_Num div64_Num
        fl_minus fq fm fd fz js_round_Num r t)
  then show ?thesis by (simp only: p_def)
qed

text \<open>
  Claim C4, as amended. \<^verbatim>\<open>probabilityToAmerican\<close> is \<^verbatim>\<open>impliedProbabilityToAmerican\<close>. It raises its
  error exactly when \<open>p \<le> 0\<close> or \<open>p \<ge> 1\<close> (as JavaScript compares, so also for the
  infinities, and not for \<open>NaN\<close>). For \<open>p\<close> between \<open>2^-20\<close> and \<open>1 - 2^-20\<close> the odds are
  \<open>-100 p / (1 - p)\<close>, negative, when \<open>p > 0.5\<close> and \<open>100 (1 - p) / p\<close>, positive,
  otherwise, and the result is a multiple of 5, of magnitude at least 100 and of the sign of
  the odds, within \<open>2.5 + |odds| / 10^15\<close> of the odds: the nearest multiple of 5 up to
  the rounding of the four operations before \<^verbatim>\<open>Math.round\<close>, so that odds close to the
  middle between two multiples of 5 may go to either.
\<close>

theorem probabilityToAmerican_spec:
  fixes x :: real
  shows "(impliedProbabilityToAmerican p = Inl InvalidProbabilityError)
           = (js_le p (Num 0) \<or> js_ge p (Num 1))
       \<and> isl (impliedProbabilityToAmerican p) = (js_le p (Num 0) \<or> js_ge p (Num 1))
       \<and> isl (impliedProbabilityToAmerican (Num x)) = (x \<le> 0 \<or> 1 \<le> x)
       \<and> (1 / 2 ^ 20 \<le> x \<and> x \<le> 1 - 1 / 2 ^ 20 \<longrightarrow>
            (let odds = (if 1 / 2 < x then - 100 * x / (1 - x) else 100 * (1 - x) / x) in
               (1 / 2 < x \<longrightarrow> odds < 0) \<and> (x \<le> 1 / 2 \<longrightarrow> 0 < odds) \<and>
               (\<exists>k::int. impliedProbabilityToAmerican (Num x) = Inr (Num (5 * of_int k))
                  \<and> \<bar>5 * of_int k - odds\<bar> \<le> 5 / 2 + \<bar>odds\<bar> / 10 ^ 15
                  \<and> (1 / 2 < x \<longrightarrow> k \<le> - 20) \<and> (x \<le> 1 / 2 \<longrightarrow> 20 \<le> k))))"
proof (intro conjI impI)
  show "(impliedProbabilityToAmerican p = Inl InvalidProbabilityError)
          = (js_le p (Num 0) \<or> js_ge p (Num 1))"
    by (rule ipta_error_iff)
  show "isl (impliedProbabilityToAmerican p) = (js_le p (Num 0) \<or> js_ge p (Num 1))"
    by (rule ipta_error_iff)
  show "isl (impliedProbabilityToAmerican (Num x)) = (x \<le> 0 \<or> 1 \<le> x)"
    by (simp add: ipta_error_iff)
next
  assume x: "1 / 2 ^ 20 \<le> x \<and> x \<le> 1 - 1 / 2 ^ 20"
  have x0: "0 < x" "x < 1" using x by (simp_all add: field_simps)
  show "let odds = (if 1 / 2 < x then - 100 * x / (1 - x) else 100 * (1 - x) / x) in
          (1 / 2 < x \<longrightarrow> odds < 0) \<and> (x \<le> 1 / 2 \<longrightarrow> 0 < odds) \<and>
          (\<exists>k::int. impliedProbabilityToAmerican (Num x) = Inr (Num (5 * of_int k))
             \<and> \<bar>5 * of_int k - odds\<bar> \<le> 5 / 2 + \<bar>odds\<bar> / 10 ^ 15
             \<and> (1 / 2 < x \<longrightarrow> k \<le> - 20) \<and> (x \<le> 1 / 2 \<longrightarrow> 20 \<le> k))"
  proof (cases "1 / 2 < x")
    case True
    have od: "0 < 100 * x / (1 - x)" using x0 by simp
    have m: "- 100 * x / (1 - x) = - (100 * x / (1 - x))" by simp
    have neg: "- 100 * x / (1 - x) < 0" unfolding m using od by linarith
    have "\<bar>- 100 * x / (1 - x)\<bar> = 100 * x / (1 - x)"
      unfolding m using od by (simp only: abs_minus_cancel abs_of_pos)
    then show ?thesis using ipta_fav [of x] True x neg by (simp add: Let_def) blast
  next
    case False
    have pos: "0 < 100 * (1 - x) / x" using x0 by simp
    then have "\<bar>100 * (1 - x) / x\<bar> = 100 * (1 - x) / x" by (simp only: abs_of_pos)
    then show ?thesis using ipta_dog [of x] False x pos by (simp add: Let_def) blast
  qed
qed

theorem probabilityToAmerican_spec_witness:
  "(1::real) / 2 ^ 20 \<le> 3 / 4 \<and> (3 / 4 :: real) \<le> 1 - 1 / 2 ^ 20 \<and> (1 / 2 :: real) < 3 / 4
   \<and> impliedProbabilityToAmerican (Num (3 / 4)) = Inr (Num (- 300))
   \<and> (\<exists>k::int. impliedProbabilityToAmerican (Num (3 / 4)) = Inr (Num (5 * of_int k)) \<and> k \<le> - 20)
   \<and> (1::real) / 2 ^ 20 \<le> 1 / 4 \<and> (1 / 4 :: real) \<le> 1 / 2
   \<and> impliedProbabilityToAmerican (Num (1 / 4)) = Inr (Num 300)
   \<and> (\<exists>k::int. impliedProbabilityToAmerican (Num (1 / 4)) = Inr (Num (5 * of_int k)) \<and> 20 \<le> k)
   \<and> impliedProbabilityToAmerican (Num 1) = Inl InvalidProbabilityError"
proof -
  have "\<exists>k::int. impliedProbabilityToAmerican (Num (3 / 4)) = Inr (Num (5 * of_int k)) \<and> k \<le> - 20"
    using probabilityToAmerican_spec [of "Num 1" "3 / 4"] by (auto simp: Let_def)
  moreover have "\<exists>k::int. impliedProbabilityToAmerican (Num (1 / 4)) = Inr (Num (5 * of_int k)) \<and> 20 \<le> k"
    using probabilityToAmerican_spec [of "Num 1" "1 / 4"] by (auto simp: Let_def)
  moreover have "impliedProbabilityToAmerican (Num 1) = Inl InvalidProbabilityError"
    using probabilityToAmerican_spec [of "Num 1" "1 / 4"] by simp
  ultimately show ?thesis by (simp add: ipta_three_quarters ipta_one_quarter)
qed

text \<open>The claim as stated fails for small probabilities: at \<open>p = 2^-1020\<close> the odds leave the
  range of the doubles and the result is \<open>Infinity\<close>, not a multiple of 5. It also fails
  next to the middle of two multiples of 5: the odds of the double written \<^verbatim>\<open>0.32\<close> are
  below \<open>212.5\<close> and nearer to \<open>210\<close>, and the result is \<open>215\<close>.\<close>

theorem probabilityToAmerican_nearest_counterexample:
  "impliedProbabilityToAmerican (Num (1 / 2 ^ 1020)) = Inr PosInf
   \<and> impliedProbabilityToAmerican (Num (5764607523034235 / 2 ^ 54)) = Inr (Num 215)
   \<and> \<bar>210 - 100 * (1 - 5764607523034235 / 2 ^ 54) / (5764607523034235 / 2 ^ 54)\<bar>
       < (5 / 2 :: real)"
proof -
  have "\<bar>210 - 100 * (1 - 5764607523034235 / 2 ^ 54) / (5764607523034235 / 2 ^ 54)\<bar>
      < (5 / 2 :: real)" by simp
  then show ?thesis using ipta_overflow ipta_032 by blast
qed


section \<open>The Kelly stake\<close>

lemma nearest_idem: "nearest (nearest x) = nearest x"
proof (cases "x = 0")
  case True
  then show ?thesis by simp
next
  case False
  define m where "m = round_even (x / ulp x)"
  have r: "nearest x = of_int m * 2 powr (of_int (expo x) - 52)"
    by (simp add: nearest_def m_def ulp_def)
  have "\<bar>x\<bar> < 2 ^ 53 * ulp x" using abs_less_expo [OF False] by (simp add: pow_expo1)
  then have "\<bar>x / ulp x\<bar> < 2 ^ 53" using ulp_pos [of x] by (simp add: abs_divide pos_divide_less_eq)
  then have "x / ulp x \<le> 2 ^ 53" "- (2 ^ 53) \<le> x / ulp x" by linarith+
  then have y: "x / ulp x \<le> of_int (2 ^ 53)" "of_int (- (2 ^ 53)) \<le> x / ulp x" by simp_all
  have m: "m \<le> 2 ^ 53" "- (2 ^ 53) \<le> m"
    unfolding m_def using y(1) round_even_le y(2) round_even_ge by blast+
  consider "\<bar>m\<bar> < 2 ^ 53" | "m = 2 ^ 53" | "m = - (2 ^ 53)" using m by linarith
  then show ?thesis
  proof cases
    case 1
    have "- 1074 \<le> expo x - 52" using expo_ge [of x] by simp
    then have "nearest (of_int m * 2 powr of_int (expo x - 52)) = of_int m * 2 powr of_int (expo x - 52)"
      using 1 by (intro nearest_dyadic)
    then show ?thesis using r by simp
  next
    case 2
    have "nearest x = 2 ^ 53 * ulp x" using 2 by (simp add: nearest_def m_def [symmetric])
    then have r2: "nearest x = of_int 1 * 2 powr of_int (expo x + 1)" by (simp add: pow_expo1)
    have "- 1074 \<le> expo x + 1" using expo_ge [of x] by simp
    then have "nearest (of_int 1 * 2 powr of_int (expo x + 1)) = of_int 1 * 2 powr of_int (expo x + 1)"
      by (intro nearest_dyadic) simp_all
    then show ?thesis using r2 by simp
  next
    case 3
    have "nearest x = - (2 ^ 53 * ulp x)" using 3 by (simp add: nearest_def m_def [symmetric])
    then have r2: "nearest x = of_int (- 1) * 2 powr of_int (expo x + 1)" by (simp add: pow_expo1)
    have "- 1074 \<le> expo x + 1" using expo_ge [of x] by simp
    then have "nearest (of_int (- 1) * 2 powr of_int (expo x + 1))
        = of_int (- 1) * 2 powr of_int (expo x + 1)"
      by (intro nearest_dyadic) simp_all
    then show ?thesis using r2 by simp
  qed
qed

lemma fl_is_double: "fl x = Num r \<Longrightarrow> is_double r"
  by (auto simp: fl_def is_double_iff nearest_idem js_signed_inf_def split: if_splits)

lemma double_gt_1:
  assumes "is_double d" "1 < d"
  shows "1 + 1 / 2 ^ 52 \<le> d"
proof (cases "2 \<le> d")
  case True
  have "(1::real) / 2 ^ 52 \<le> 1" by simp
  then show ?thesis using True by linarith
next
  case False
  have "expo d = 0" using assms(2) False by (intro expo_eqI) simp_all
  then have u: "ulp d = 1 / 2 ^ 52" by (simp add: ulp_def powr_minus inverse_eq_divide)
  define k where "k = round_even (d / ulp d)"
  have "d / ulp d = of_int k" unfolding k_def using assms(1) by (intro nearest_fix) (simp add: is_double_iff)
  then have d: "d = of_int k / 2 ^ 52" by (simp add: u)
  then have "(of_int (2 ^ 52) :: real) < of_int k" using assms(2) by simp
  then have "2 ^ 52 < k" by (simp only: of_int_less_iff)
  then have "2 ^ 52 + 1 \<le> k" by simp
  then have "(of_int (2 ^ 52 + 1) :: real) \<le> of_int k" by (simp only: of_int_le_iff)
  then show ?thesis by (simp add: d field_simps)
qed


lemma kelly_b:
  fixes v :: real
  assumes v: "100 \<le> \<bar>v\<bar>" "\<bar>v\<bar> < 2 ^ 1024"
  obtains b where
    "sub64 (add64 (Num 1) (if 0 < v then div64 (Num v) (Num 100) else div64 (Num 100) (Num \<bar>v\<bar>)))
       (Num 1) = Num b"
    "is_double b" "0 \<le> b" "b = 0 \<or> 1 / 2 ^ 52 \<le> b"
    "is_finite (add64 (Num 1) (if 0 < v then div64 (Num v) (Num 100) else div64 (Num 100) (Num \<bar>v\<bar>)))"
proof (cases "0 < v")
  case True
  define P :: real where "P = 2 ^ 1018"
  have P: "1 \<le> P" "is_double P" "is_double (2 * P)"
    using is_double_pow2 [of 1018] is_double_pow2 [of 1019] by (simp_all add: P_def)
  have "(2::real) ^ 1024 = 64 * P" by (simp add: P_def)
  then have "v / 100 \<le> P" using v(2) True P(1) by simp
  moreover have "1 \<le> v / 100" using v(1) True by simp
  ultimately obtain t where t: "fl (v / 100) = Num t" "1 \<le> t" "t \<le> P"
    using fl_between [of 1 P "v / 100"] P by auto
  obtain d where d: "fl (1 + t) = Num d" "2 \<le> d" "d \<le> 2 * P"
    using fl_between [of 2 "2 * P" "1 + t"] t(2,3) P by (auto simp: is_double_numeral)
  obtain b where b: "fl (d - 1) = Num b" "1 \<le> b" "b \<le> 2 * P"
    using fl_between [of 1 "2 * P" "d - 1"] d(2,3) P by auto
  have "sub64 (add64 (Num 1) (div64 (Num v) (Num 100))) (Num 1) = Num b"
    by (simp add: div64_Num add64_Num sub64_Num t(1) d(1) b(1))
  moreover have "is_double b" using b(1) by (rule fl_is_double)
  moreover have "(1::real) / 2 ^ 52 \<le> 1" by simp
  then have "1 / 2 ^ 52 \<le> b" using b(2) by linarith
  moreover have "is_finite (add64 (Num 1) (div64 (Num v) (Num 100)))"
    by (simp add: div64_Num add64_Num t(1) d(1))
  ultimately show ?thesis using that True b(2) by simp
next
  case False
  then have a: "100 \<le> \<bar>v\<bar>" "\<bar>v\<bar> \<noteq> 0" using v(1) by simp_all
  have "0 \<le> 100 / \<bar>v\<bar>" "100 / \<bar>v\<bar> \<le> 1" using a by simp_all
  then obtain t where t: "fl (100 / \<bar>v\<bar>) = Num t" "0 \<le> t" "t \<le> 1"
    using fl_between [of 0 1 "100 / \<bar>v\<bar>"] by auto
  obtain d where d: "fl (1 + t) = Num d" "1 \<le> d" "d \<le> 2"
    using fl_between [of 1 2 "1 + t"] t(2,3) by (auto simp: is_double_numeral)
  have dd: "is_double d" using d(1) by (rule fl_is_double)
  have fin: "is_finite (add64 (Num 1) (div64 (Num 100) (Num \<bar>v\<bar>)))"
    using a by (simp add: div64_Num add64_Num t(1) d(1))
  have eq: "sub64 (add64 (Num 1) (div64 (Num 100) (Num \<bar>v\<bar>))) (Num 1) = fl (d - 1)"
    using a by (simp add: div64_Num add64_Num sub64_Num t(1) d(1))
  show ?thesis
  proof (cases "d = 1")
    case True
    then have "fl (d - 1) = Num 0" by simp
    then show ?thesis using that [of 0] False eq fin by simp
  next
    case d1: False
    then have "1 + 1 / 2 ^ 52 \<le> d" using dd d(2) by (intro double_gt_1) simp_all
    then have "1 / 2 ^ 52 \<le> d - 1" "d - 1 \<le> 1" using d(3) by simp_all
    then obtain b where b: "fl (d - 1) = Num b" "1 / 2 ^ 52 \<le> b" "b \<le> 1"
      using fl_between [of "1 / 2 ^ 52" 1 "d - 1"] is_double_inv_pow2 [of 52] by auto
    have "(0::real) \<le> 1 / 2 ^ 52" by simp
    then have "0 \<le> b" using b(2) by linarith
    moreover have "is_double b" using b(1) by (rule fl_is_double)
    ultimately show ?thesis using that [of b] False eq fin b by simp
  qed
qed

lemma dec_by_value:
  "americanToDecimalOdds (Num v) =
     add64 (Num 1) (if 0 < v then div64 (Num v) (Num 100) else div64 (Num 100) (Num \<bar>v\<bar>))"
  by (simp add: americanToDecimalOdds_def)

lemma kelly_by_value:
  assumes "sub64 (americanToDecimalOdds (Num v)) (Num 1) = Num b"
  shows "calculateKellyStake p (Num v) =
     js_max (Num 0) (div64 (sub64 (mul64 (Num b) p) (sub64 (Num 1) p)) (Num b))"
  using assms by (simp add: calculateKellyStake_def Let_def)

lemma js_max_0_NegInf: "js_max (Num 0) NegInf = Num 0"
  by (simp add: js_max_def)

lemma kelly_valid:
  fixes p v :: real
  assumes p: "0 < p" "p \<le> 1 - 1 / 2 ^ 53" and v: "100 \<le> \<bar>v\<bar>" "\<bar>v\<bar> < 2 ^ 1024"
  shows "\<exists>s. calculateKellyStake (Num p) (Num v) = Num s \<and> 0 \<le> s \<and> s \<le> 1"
proof -
  obtain b where b: "sub64 (americanToDecimalOdds (Num v)) (Num 1) = Num b"
      "is_double b" "0 \<le> b" "b = 0 \<or> 1 / 2 ^ 52 \<le> b"
    using kelly_b [OF v] unfolding dec_by_value [symmetric] by metis
  have k: "calculateKellyStake (Num p) (Num v) =
     js_max (Num 0) (div64 (sub64 (mul64 (Num b) (Num p)) (sub64 (Num 1) (Num p))) (Num b))"
    using b(1) by (rule kelly_by_value)
  have "1 / 2 ^ 53 \<le> 1 - p" "1 - p \<le> 1" using p by simp_all
  then obtain q where q: "fl (1 - p) = Num q" "1 / 2 ^ 53 \<le> q" "q \<le> 1"
    using fl_between [of "1 / 2 ^ 53" 1 "1 - p"] is_double_inv_pow2 [of 53] by auto
  have q0: "0 < q" using q(2) by (smt (verit) divide_pos_pos zero_less_power zero_less_one)
  have dq: "is_double q" using q(1) by (rule fl_is_double)
  have "p \<le> 1" using p(2) by (smt (verit) divide_pos_pos zero_less_power zero_less_one)
  then have "0 \<le> b * p" "b * p \<le> b" using p(1) b(3) by (simp_all add: mult_left_le)
  then obtain c where c: "fl (b * p) = Num c" "0 \<le> c" "c \<le> b"
    using fl_between [of 0 b "b * p"] b(2) by auto
  have "- 1 \<le> c - q" "c - q \<le> b" using c(2,3) q(3) q0 by simp_all
  then obtain n where n: "fl (c - q) = Num n" "- 1 \<le> n" "n \<le> b"
    using fl_between [of "- 1" b "c - q"] b(2) is_double_minus [of 1] by auto
  have st: "calculateKellyStake (Num p) (Num v) = js_max (Num 0) (div64 (Num n) (Num b))"
    unfolding k by (simp add: mul64_Num sub64_Num q(1) c(1) n(1))
  show ?thesis
  proof (cases "b = 0")
    case True
    then have "c = 0" using c(2,3) by simp
    then have "fl (c - q) = Num (- q)" using dq by (simp add: fl_minus is_double_def)
    then have "n = - q" using n(1) by simp
    then have "div64 (Num n) (Num b) = NegInf"
      using True q0 by (simp add: div64_def js_signed_inf_def)
    then show ?thesis unfolding st by (simp add: js_max_0_NegInf)
  next
    case False
    then have b52: "1 / 2 ^ 52 \<le> b" using b(4) by simp
    then have b0: "0 < b" by (smt (verit) divide_pos_pos zero_less_power zero_less_one)
    have "n / b \<le> 1" using n(3) b0 by simp
    moreover have "- (2 ^ 52) \<le> n / b"
    proof -
      have "1 \<le> 2 ^ 52 * b" using b52 by (simp add: field_simps)
      then have "- (2 ^ 52) * b \<le> n" using n(2) by linarith
      then show ?thesis using b0 by (simp add: pos_le_divide_eq)
    qed
    ultimately obtain s where s: "fl (n / b) = Num s" "- (2 ^ 52) \<le> s" "s \<le> 1"
      using fl_between [of "- (2 ^ 52)" 1 "n / b"] is_double_pow2 [of 52]
      by (auto simp: is_double_minus)
    have "calculateKellyStake (Num p) (Num v) = Num (max 0 s)"
      unfolding st using False by (simp add: div64_Num s(1))
    then show ?thesis using s(3) by auto
  qed
qed


lemma fl_values:
  "fl 1 = Num 1" "fl 2 = Num 2" "fl (1 / 2) = Num (1 / 2)" "fl (3 / 2) = Num (3 / 2)"
  "fl (1 / 4) = Num (1 / 4)" "fl (3 / 8) = Num (3 / 8)" "fl (1 / 8) = Num (1 / 8)"
  using is_double_int [of 1] is_double_int [of 2] is_double_div_pow2 [of 1 1]
    is_double_div_pow2 [of 3 1] is_double_div_pow2 [of 1 2] is_double_div_pow2 [of 3 3]
    is_double_div_pow2 [of 1 3]
  by (simp_all add: is_double_def)

lemma kelly_examples:
  "calculateKellyStake (Num (1 / 2)) (Num 100) = Num 0"
  "calculateKellyStake (Num (3 / 4)) (Num (- 200)) = Num (1 / 4)"
  "calculateKellyStake (Num (3 / 2)) (Num 100) = Num 2"
  "calculateKellyStake (Num 1) (Num (- 200)) = Num 1"
  "calculateKellyStake (Num 0) (Num 100) = Num 0"
  by (simp_all add: calculateKellyStake_def americanToDecimalOdds_def Let_def
      add64_Num sub64_Num mul64_Num div64_Num fl_values fl_minus)

text \<open>
  Claim C5. \<^verbatim>\<open>kellyStake\<close> is \<^verbatim>\<open>calculateKellyStake\<close> and \<^verbatim>\<open>americanToDecimal\<close> is
  \<^verbatim>\<open>americanToDecimalOdds\<close>, both in binary64. For a probability \<open>0 < p < 1\<close> (a double
  below 1 is at most \<open>1 - 2^-53\<close>) and finite odds of magnitude at least 100, the decimal
  odds are \<open>1 + o / 100\<close> for \<open>o > 0\<close> and \<open>1 + 100 / |o|\<close> for \<open>o < 0\<close>, \<open>b\<close> is
  the decimal odds minus 1, a number \<open>b \<ge> 0\<close>, and the stake is
  \<open>max 0 ((b p - (1 - p)) / b)\<close>, each operation rounded: a finite number between 0 and 1,
  never negative. A fair coin at even money gets the stake \<open>0\<close>, and a probability of
  \<open>0.75\<close> at \<open>-200\<close> the stake \<open>0.25\<close>.
\<close>

theorem kellyStake_formula:
  fixes p v :: real
  assumes "0 < p" "p \<le> 1 - 1 / 2 ^ 53" "100 \<le> \<bar>v\<bar>" "\<bar>v\<bar> < 2 ^ 1024"
  shows "\<exists>b s.
           americanToDecimalOdds (Num v) =
             add64 (Num 1) (if 0 < v then div64 (Num v) (Num 100) else div64 (Num 100) (Num \<bar>v\<bar>))
         \<and> is_finite (americanToDecimalOdds (Num v))
         \<and> sub64 (americanToDecimalOdds (Num v)) (Num 1) = Num b \<and> 0 \<le> b
         \<and> calculateKellyStake (Num p) (Num v) =
             js_max (Num 0) (div64 (sub64 (mul64 (Num b) (Num p)) (sub64 (Num 1) (Num p))) (Num b))
         \<and> calculateKellyStake (Num p) (Num v) = Num s \<and> 0 \<le> s \<and> s \<le> 1
         \<and> js_ge (calculateKellyStake (Num p) (Num v)) (Num 0)
         \<and> calculateKellyStake (Num (1 / 2)) (Num 100) = Num 0
         \<and> calculateKellyStake (Num (3 / 4)) (Num (- 200)) = Num (1 / 4)"
proof -
  obtain b where b: "sub64 (americanToDecimalOdds (Num v)) (Num 1) = Num b" "0 \<le> b"
      "is_finite (americanToDecimalOdds (Num v))"
    using kelly_b [OF assms(3,4)] unfolding dec_by_value [symmetric] by metis
  obtain s where s: "calculateKellyStake (Num p) (Num v) = Num s" "0 \<le> s" "s \<le> 1"
    using kelly_valid [OF assms] by blast
  have "js_ge (calculateKellyStake (Num p) (Num v)) (Num 0)" using s by simp
  then show ?thesis
    using b s dec_by_value [of v] kelly_by_value [OF b(1), of "Num p"] kelly_examples(1,2)
    by blast
qed

theorem kellyStake_formula_witness:
  "(0::real) < 3 / 4 \<and> (3 / 4 :: real) \<le> 1 - 1 / 2 ^ 53 \<and> (100::real) \<le> \<bar>- 200\<bar>
   \<and> \<bar>- 200 :: real\<bar> < 2 ^ 1024
   \<and> sub64 (americanToDecimalOdds (Num (- 200))) (Num 1) = Num (1 / 2)
   \<and> (\<exists>s. calculateKellyStake (Num (3 / 4)) (Num (- 200)) = Num s \<and> 0 \<le> s \<and> s \<le> 1)
   \<and> calculateKellyStake (Num (3 / 4)) (Num (- 200)) = Num (1 / 4)"
proof -
  have h: "(0::real) < 3 / 4" "(3 / 4 :: real) \<le> 1 - 1 / 2 ^ 53" "(100::real) \<le> \<bar>- 200\<bar>"
    "\<bar>- 200 :: real\<bar> < 2 ^ 1024" by simp_all
  have "sub64 (americanToDecimalOdds (Num (- 200))) (Num 1) = Num (1 / 2)"
    by (simp add: americanToDecimalOdds_def add64_Num sub64_Num div64_Num fl_values)
  moreover have "\<exists>s. calculateKellyStake (Num (3 / 4)) (Num (- 200)) = Num s \<and> 0 \<le> s \<and> s \<le> 1"
    using kellyStake_formula [OF h] by blast
  ultimately show ?thesis using h kelly_examples(2) by blast
qed

lemma kelly_zero_odds: "calculateKellyStake p (Num 0) = NaN"
proof -
  have b: "sub64 (americanToDecimalOdds (Num 0)) (Num 1) = PosInf"
    by (simp add: americanToDecimalOdds_def add64_def sub64_def div64_def js_signed_inf_def
        js_sub_def)
  have "sub64 (mul64 PosInf p) (sub64 (Num 1) p) \<in> {PosInf, NegInf, NaN}"
  proof (cases p)
    case (Num x)
    consider "x = 0" | "0 < x" | "x < 0" by linarith
    then show ?thesis
    proof cases
      case 1
      then show ?thesis by (simp add: Num mul64_def sub64_def js_sub_def)
    next
      case 2
      then have m: "mul64 PosInf p = PosInf" by (simp add: Num mul64_def js_signed_inf_def)
      have "fl (1 - x) = NegInf \<or> (\<exists>r. fl (1 - x) = Num r \<and> r \<le> 1)"
        using 2 by (intro fl_le) simp_all
      then show ?thesis unfolding m by (auto simp: Num sub64_Num sub64_def js_sub_def)
    next
      case 3
      then have m: "mul64 PosInf p = NegInf" by (simp add: Num mul64_def js_signed_inf_def)
      have "fl (1 - x) = PosInf \<or> (\<exists>r. fl (1 - x) = Num r \<and> 1 \<le> r)"
        using 3 by (intro fl_ge) simp_all
      then show ?thesis unfolding m by (auto simp: Num sub64_Num sub64_def js_sub_def)
    qed
  qed (simp_all add: mul64_def sub64_def js_sub_def js_signed_inf_def)
  then have "div64 (sub64 (mul64 PosInf p) (sub64 (Num 1) p)) PosInf = NaN"
    by (auto simp: div64_def)
  then show ?thesis by (simp add: calculateKellyStake_def Let_def b js_max_def)
qed

lemma kelly_nonpos:
  fixes x v :: real
  assumes x: "x \<le> 0" and v: "100 \<le> \<bar>v\<bar>" "\<bar>v\<bar> < 2 ^ 1024"
  shows "calculateKellyStake (Num x) (Num v) = Num 0"
proof -
  obtain b where b: "sub64 (americanToDecimalOdds (Num v)) (Num 1) = Num b" "0 \<le> b"
    using kelly_b [OF v] unfolding dec_by_value [symmetric] by metis
  have k: "calculateKellyStake (Num x) (Num v) =
     js_max (Num 0) (div64 (sub64 (mul64 (Num b) (Num x)) (sub64 (Num 1) (Num x))) (Num b))"
    using b(1) by (rule kelly_by_value)
  have q: "fl (1 - x) = PosInf \<or> (\<exists>r. fl (1 - x) = Num r \<and> 1 \<le> r)"
    using x by (intro fl_ge) simp_all
  have "b * x \<le> 0" using x b(2) by (simp add: mult_le_0_iff)
  then have c: "fl (b * x) = NegInf \<or> (\<exists>r. fl (b * x) = Num r \<and> r \<le> 0)"
    by (intro fl_le) simp_all
  have n: "sub64 (fl (b * x)) (fl (1 - x)) = NegInf
      \<or> (\<exists>r. sub64 (fl (b * x)) (fl (1 - x)) = Num r \<and> r \<le> - 1)"
  proof -
    consider (inf) "fl (b * x) = NegInf \<or> fl (1 - x) = PosInf"
      | (fin) c q where "fl (b * x) = Num c" "c \<le> 0" "fl (1 - x) = Num q" "1 \<le> q"
      using q c by blast
    then show ?thesis
    proof cases
      case inf
      then show ?thesis using q c by (auto simp: sub64_def js_sub_def)
    next
      case fin
      have "c - q \<le> - 1" using fin by simp
      then have "fl (c - q) = NegInf \<or> (\<exists>r. fl (c - q) = Num r \<and> r \<le> - 1)"
        using is_double_minus [of 1] by (intro fl_le) simp_all
      then show ?thesis by (simp add: fin sub64_Num)
    qed
  qed
  have "div64 (sub64 (fl (b * x)) (fl (1 - x))) (Num b) = NegInf
      \<or> (\<exists>s. div64 (sub64 (fl (b * x)) (fl (1 - x))) (Num b) = Num s \<and> s \<le> 0)"
  proof -
    consider "sub64 (fl (b * x)) (fl (1 - x)) = NegInf"
      | r where "sub64 (fl (b * x)) (fl (1 - x)) = Num r" "r \<le> - 1"
      using n by blast
    then show ?thesis
    proof cases
      case 1
      then show ?thesis using b(2) by (simp add: div64_def js_signed_inf_def)
    next
      case 2
      show ?thesis
      proof (cases "b = 0")
        case True
        then show ?thesis using 2 by (simp add: div64_def js_signed_inf_def)
      next
        case False
        then have "r / b \<le> 0" using 2(2) b(2) by (simp add: divide_le_0_iff)
        then have "fl (r / b) = NegInf \<or> (\<exists>s. fl (r / b) = Num s \<and> s \<le> 0)"
          by (intro fl_le) simp_all
        then show ?thesis using False by (simp add: 2(1) div64_Num)
      qed
    qed
  qed
  then show ?thesis unfolding k by (auto simp: mul64_Num sub64_Num js_max_0_NegInf)
qed

text \<open>
  Claim C7, as amended. \<^verbatim>\<open>calculateKellyStake\<close> checks neither argument and raises no
  error. For the odds \<open>0\<close> it returns \<open>NaN\<close>, whatever the probability. A probability
  outside the open interval from 0 to 1 gets a numeric stake: the stake \<open>0\<close> for every
  probability \<open>p \<le> 0\<close> at finite odds of magnitude at least 100, and for instance the stake
  \<open>2\<close> for \<open>p = 1.5\<close> at \<open>+100\<close> and the stake \<open>1\<close> for \<open>p = 1\<close> at \<open>-200\<close>.
\<close>

theorem kellyStake_degenerate:
  fixes x v :: real
  shows "calculateKellyStake p (Num 0) = NaN
       \<and> (x \<le> 0 \<and> 100 \<le> \<bar>v\<bar> \<and> \<bar>v\<bar> < 2 ^ 1024 \<longrightarrow>
            calculateKellyStake (Num x) (Num v) = Num 0)
       \<and> calculateKellyStake (Num (3 / 2)) (Num 100) = Num 2
       \<and> calculateKellyStake (Num 1) (Num (- 200)) = Num 1"
  using kelly_zero_odds kelly_nonpos kelly_examples(3,4) by blast

theorem kellyStake_degenerate_witness:
  "(- 1 :: real) \<le> 0 \<and> (100::real) \<le> \<bar>- 150\<bar> \<and> \<bar>- 150 :: real\<bar> < 2 ^ 1024
   \<and> calculateKellyStake (Num (- 1)) (Num (- 150)) = Num 0
   \<and> calculateKellyStake PosInf (Num 0) = NaN"
  using kellyStake_degenerate [of PosInf "- 1" "- 150"] by simp

text \<open>The claim as stated fails: a probability of \<open>1.5\<close> and one of \<open>0\<close> get a numeric
  stake at even money, and the odds \<open>0\<close> get \<open>NaN\<close>.\<close>

theorem kellyStake_rejects_counterexample:
  "calculateKellyStake (Num (3 / 2)) (Num 100) = Num 2
   \<and> calculateKellyStake (Num 0) (Num 100) = Num 0
   \<and> calculateKellyStake (Num (1 / 2)) (Num 0) = NaN"
  by (simp add: kelly_examples kelly_zero_odds)


section \<open>The round trip from the odds\<close>

lemma int_5k_eq:
  fixes k k' :: int
  assumes "\<bar>5 * real_of_int k' - 5 * real_of_int k\<bar> < 5"
  shows "k' = k"
proof -
  have "\<bar>real_of_int (5 * k' - 5 * k)\<bar> < real_of_int 5" using assms by simp
  then have "real_of_int \<bar>5 * k' - 5 * k\<bar> < real_of_int 5" by (simp only: of_int_abs)
  then have "\<bar>5 * k' - 5 * k\<bar> < 5" by (simp only: of_int_less_iff)
  then show ?thesis by presburger
qed

lemma quot_half:
  fixes a r :: real
  assumes "\<bar>a\<bar> \<le> 1 / 2 ^ 21" "1 / 2 ^ 20 \<le> r"
  shows "\<bar>a / r\<bar> \<le> 1 / 2"
proof -
  have r0: "0 < r" using assms(2) by (smt (verit) divide_pos_pos zero_less_power zero_less_one)
  have "(1::real) / 2 ^ 21 = 1 / 2 * (1 / 2 ^ 20)" by simp
  also have "\<dots> \<le> 1 / 2 * r" using assms(2) by simp
  finally have "\<bar>a\<bar> \<le> 1 / 2 * r" using assms(1) by linarith
  then have "\<bar>a\<bar> / r \<le> 1 / 2" using r0 by (simp add: pos_divide_le_eq)
  then show ?thesis using r0 by (simp add: abs_divide)
qed

lemma atip64_pos:
  fixes k :: int
  assumes k: "20 \<le> k" "k \<le> 20971500"
  shows "\<exists>r. americanToImpliedProbability64 (Num (5 * of_int k)) = Num r
           \<and> 1 / 2 ^ 20 \<le> r \<and> r \<le> 1 / 2 \<and> \<bar>100 * (1 - r) / r - 5 * of_int k\<bar> \<le> 1 / 2"
proof -
  define s :: real where "s = of_int (5 * k + 100)"
  have s: "200 \<le> s" "s \<le> 104857600"
  proof -
    have "(200::int) \<le> 5 * k + 100" "5 * k + 100 \<le> (104857600::int)" using k by simp_all
    then have "real_of_int 200 \<le> s" "s \<le> real_of_int 104857600"
      unfolding s_def by (simp_all only: of_int_le_iff)
    then show "200 \<le> s" "s \<le> 104857600" by simp_all
  qed
  have o: "5 * real_of_int k = s - 100" by (simp add: s_def)
  have o0: "0 < 5 * real_of_int k" using s(1) unfolding o by simp
  have "\<bar>5 * k + 100\<bar> < 2 ^ 53" using k by simp
  then have "is_double s" unfolding s_def by (rule is_double_int)
  then have fs: "fl (5 * real_of_int k + 100) = Num s" by (simp add: o is_double_def)
  have lo: "1 / 2 ^ 20 \<le> 100 / s" using s by (simp add: field_simps)
  have hi: "100 / s \<le> 1 / 2" using s by (simp add: field_simps)
  obtain r where r: "fl (100 / s) = Num r" "1 / 2 ^ 20 \<le> r" "r \<le> 1 / 2"
    using fl_between [OF is_double_inv_pow2 [of 20] is_double_half lo hi] by auto
  have "(1::real) / 2 ^ 1000 \<le> 1 / 2 ^ 20" by simp
  then have lo': "1 / 2 ^ 1000 \<le> 100 / s" using lo by linarith
  have "(1::real) / 2 \<le> 2 ^ 1000" by simp
  then have hi': "100 / s \<le> 2 ^ 1000" using hi by linarith
  obtain r' where r': "fl (100 / s) = Num r'" "100 / s * (1 - 1 / 2 ^ 53) \<le> r'"
      "r' \<le> 100 / s * (1 + 1 / 2 ^ 53)"
    using fl_pos [OF lo' hi'] by blast
  have rr: "r' = r" using r(1) r'(1) by simp
  have s0: "0 < s" using s(1) by linarith
  have r0: "0 < r" using r(2) by (smt (verit) divide_pos_pos zero_less_power zero_less_one)
  define e :: real where "e = 1 / 2 ^ 53"
  have "s * (100 / s * (1 - e)) \<le> s * r" "s * r \<le> s * (100 / s * (1 + e))"
    using r'(2,3) s0 unfolding rr e_def by (simp_all only: mult_le_cancel_left_pos)
  moreover have "s * (100 / s * (1 - e)) = 100 - 100 * e"
      "s * (100 / s * (1 + e)) = 100 + 100 * e"
    using s0 by (simp_all add: field_simps)
  ultimately have "100 - 100 * e \<le> s * r" "s * r \<le> 100 + 100 * e" by simp_all
  moreover have "100 * e \<le> 1 / 2 ^ 21" by (simp add: e_def)
  ultimately have "\<bar>100 - s * r\<bar> \<le> 1 / 2 ^ 21" by linarith
  then have "\<bar>(100 - s * r) / r\<bar> \<le> 1 / 2" using r(2) by (rule quot_half)
  moreover have "100 * (1 - r) / r - 5 * real_of_int k = (100 - s * r) / r"
    using r0 unfolding o by (simp add: field_simps)
  ultimately have err: "\<bar>100 * (1 - r) / r - 5 * real_of_int k\<bar> \<le> 1 / 2" by simp
  have "americanToImpliedProbability64 (Num (5 * real_of_int k)) = Num r"
    using o0 s0 by (simp add: americanToImpliedProbability64_def add64_Num fs div64_Num r(1))
  then show ?thesis using r(2,3) err by blast
qed

lemma atip64_neg:
  fixes k :: int
  assumes k: "- 20971500 \<le> k" "k \<le> - 21"
  shows "\<exists>r. americanToImpliedProbability64 (Num (5 * of_int k)) = Num r
           \<and> 1 / 2 < r \<and> r \<le> 1 - 1 / 2 ^ 20
           \<and> \<bar>- 100 * r / (1 - r) - 5 * of_int k\<bar> \<le> 1 / 2"
proof -
  define a :: real where "a = of_int (- 5 * k)"
  have a: "105 \<le> a" "a \<le> 104857500"
  proof -
    have "(105::int) \<le> - 5 * k" "- 5 * k \<le> (104857500::int)" using k by simp_all
    then have "real_of_int 105 \<le> a" "a \<le> real_of_int 104857500"
      unfolding a_def by (simp_all only: of_int_le_iff)
    then show "105 \<le> a" "a \<le> 104857500" by simp_all
  qed
  define s where "s = a + 100"
  have s0: "0 < s" and a0: "0 < a" using a by (simp_all add: s_def)
  have o: "5 * real_of_int k = - a" by (simp add: a_def)
  have ab: "\<bar>5 * real_of_int k\<bar> = a" using a0 unfolding o by simp
  have "s = of_int (- 5 * k + 100)" by (simp add: s_def a_def)
  moreover have "\<bar>- 5 * k + 100\<bar> < 2 ^ 53" using k by simp
  ultimately have "is_double s" using is_double_int by metis
  then have fs: "fl (a + 100) = Num s" by (simp add: s_def is_double_def)
  have d1: "is_double (131 / 256)" using is_double_div_pow2 [of 131 8] by simp
  have d2: "is_double (1 - 1 / 2 ^ 20)" using is_double_div_pow2 [of 1048575 20] by simp
  have lo: "131 / 256 \<le> a / s" using a s0 by (simp add: s_def field_simps)
  have hi: "a / s \<le> 1 - 1 / 2 ^ 20" using a s0 by (simp add: s_def field_simps)
  obtain r where r: "fl (a / s) = Num r" "131 / 256 \<le> r" "r \<le> 1 - 1 / 2 ^ 20"
    using fl_between [OF d1 d2 lo hi] by auto
  have "(1::real) / 2 ^ 1000 \<le> 131 / 256" by simp
  then have lo': "1 / 2 ^ 1000 \<le> a / s" using lo by linarith
  have "1 - (1::real) / 2 ^ 20 \<le> 2 ^ 1000"
    by (smt (verit) divide_pos_pos zero_less_power zero_less_one one_le_power)
  then have hi': "a / s \<le> 2 ^ 1000" using hi by linarith
  obtain r' where r': "fl (a / s) = Num r'" "a / s * (1 - 1 / 2 ^ 53) \<le> r'"
      "r' \<le> a / s * (1 + 1 / 2 ^ 53)"
    using fl_pos [OF lo' hi'] by blast
  have rr: "r' = r" using r(1) r'(1) by simp
  have q: "1 / 2 ^ 20 \<le> 1 - r" using r(3) by simp
  define e :: real where "e = 1 / 2 ^ 53"
  have e0: "0 \<le> e" by (simp add: e_def)
  have "s * (a / s * (1 - e)) \<le> s * r" "s * r \<le> s * (a / s * (1 + e))"
    using r'(2,3) s0 unfolding rr e_def by (simp_all only: mult_le_cancel_left_pos)
  moreover have "s * (a / s * (1 - e)) = a - a * e" "s * (a / s * (1 + e)) = a + a * e"
    using s0 by (simp_all add: field_simps)
  ultimately have "a - a * e \<le> s * r" "s * r \<le> a + a * e" by simp_all
  moreover have "a * e \<le> 104857500 * e" using a(2) e0 by (rule mult_right_mono)
  moreover have "104857500 * e \<le> 1 / 2 ^ 21" by (simp add: e_def)
  ultimately have "\<bar>a - s * r\<bar> \<le> 1 / 2 ^ 21" by linarith
  then have "\<bar>(a - s * r) / (1 - r)\<bar> \<le> 1 / 2" using q by (rule quot_half)
  moreover have "- 100 * r / (1 - r) - 5 * real_of_int k = (a - s * r) / (1 - r)"
    using q unfolding o s_def by (simp add: field_simps)
  ultimately have err: "\<bar>- 100 * r / (1 - r) - 5 * real_of_int k\<bar> \<le> 1 / 2" by simp
  have "\<not> 0 < 5 * real_of_int k" using a0 unfolding o by simp
  then have "americanToImpliedProbability64 (Num (5 * real_of_int k)) = Num r"
    using s0 by (simp add: americanToImpliedProbability64_def ab add64_Num fs div64_Num r(1))
  moreover have "1 / 2 < r" using r(2) by simp
  ultimately show ?thesis using r(3) err by blast
qed

lemma roundtrip_pos:
  fixes k :: int
  assumes k: "20 \<le> k" "k \<le> 20971500"
  shows "impliedProbabilityToAmerican (americanToImpliedProbability64 (Num (5 * of_int k)))
           = Inr (Num (5 * of_int k))"
proof -
  obtain r where r: "americanToImpliedProbability64 (Num (5 * of_int k)) = Num r"
      "1 / 2 ^ 20 \<le> r" "r \<le> 1 / 2" "\<bar>100 * (1 - r) / r - 5 * of_int k\<bar> \<le> 1 / 2"
    using atip64_pos [OF k] by blast
  obtain k' :: int where k': "impliedProbabilityToAmerican (Num r) = Inr (Num (5 * of_int k'))"
      "\<bar>5 * of_int k' - 100 * (1 - r) / r\<bar> \<le> 5 / 2 + (100 * (1 - r) / r) / 10 ^ 15"
    using ipta_dog [OF r(2,3)] by blast
  define od where "od = 100 * (1 - r) / r"
  have "real_of_int k \<le> real_of_int 20971500" using k(2) by (simp only: of_int_le_iff)
  then have "real_of_int k \<le> 20971500" by simp
  then have "od \<le> 104857501" using r(4) unfolding od_def [symmetric] by linarith
  then have "od / 10 ^ 15 \<le> 1" by simp
  then have "\<bar>5 * real_of_int k' - 5 * real_of_int k\<bar> < 5"
    using r(4) k'(2) unfolding od_def [symmetric] by linarith
  then have "k' = k" by (rule int_5k_eq)
  then show ?thesis using r(1) k'(1) by simp
qed

lemma roundtrip_neg:
  fixes k :: int
  assumes k: "- 20971500 \<le> k" "k \<le> - 21"
  shows "impliedProbabilityToAmerican (americanToImpliedProbability64 (Num (5 * of_int k)))
           = Inr (Num (5 * of_int k))"
proof -
  obtain r where r: "americanToImpliedProbability64 (Num (5 * of_int k)) = Num r"
      "1 / 2 < r" "r \<le> 1 - 1 / 2 ^ 20" "\<bar>- 100 * r / (1 - r) - 5 * of_int k\<bar> \<le> 1 / 2"
    using atip64_neg [OF k] by blast
  obtain k' :: int where k': "impliedProbabilityToAmerican (Num r) = Inr (Num (5 * of_int k'))"
      "\<bar>5 * of_int k' - (- 100 * r / (1 - r))\<bar> \<le> 5 / 2 + (100 * r / (1 - r)) / 10 ^ 15"
    using ipta_fav [OF r(2,3)] by blast
  define od where "od = 100 * r / (1 - r)"
  have m: "- 100 * r / (1 - r) = - od" by (simp add: od_def)
  have "real_of_int (- 20971500) \<le> real_of_int k" using k(1) by (simp only: of_int_le_iff)
  then have "- 20971500 \<le> real_of_int k" by simp
  then have "od \<le> 104857501" using r(4) unfolding m by linarith
  then have "od / 10 ^ 15 \<le> 1" by simp
  then have "\<bar>5 * real_of_int k' - 5 * real_of_int k\<bar> < 5"
    using r(4) k'(2) unfolding m od_def [symmetric] by linarith
  then have "k' = k" by (rule int_5k_eq)
  then show ?thesis using r(1) k'(1) by simp
qed

lemma roundtrip_even:
  "americanToImpliedProbability64 (Num (- 100)) = Num (1 / 2)"
  "americanToImpliedProbability64 (Num 100) = Num (1 / 2)"
  "impliedProbabilityToAmerican (Num (1 / 2)) = Inr (Num 100)"
proof -
  have a: "fl 200 = Num 200" "fl 50 = Num 50" "fl 100 = Num 100" "fl 20 = Num 20"
    using is_double_int [of 200] is_double_int [of 50] is_double_int [of 100] is_double_int [of 20]
    by (simp_all add: is_double_def)
  show "americanToImpliedProbability64 (Num (- 100)) = Num (1 / 2)"
    "americanToImpliedProbability64 (Num 100) = Num (1 / 2)"
    by (simp_all add: americanToImpliedProbability64_def add64_Num div64_Num a fl_values)
  have "\<lfloor>20 + 1 / 2 :: real\<rfloor> = 20" by linarith
  then show "impliedProbabilityToAmerican (Num (1 / 2)) = Inr (Num 100)"
    by (simp add: impliedProbabilityToAmerican_def sub64_Num mul64_Num div64_Num a fl_values)
qed


lemma ipta_range:
  fixes x :: real
  assumes x: "1 / 2 ^ 20 \<le> x" "x \<le> 1 - 1 / 2 ^ 20"
  shows "\<exists>k::int. impliedProbabilityToAmerican (Num x) = Inr (Num (5 * of_int k))
           \<and> ((20 \<le> k \<and> k \<le> 20971500) \<or> (- 20971500 \<le> k \<and> k \<le> - 20))"
proof (cases "1 / 2 < x")
  case True
  obtain k :: int where k: "impliedProbabilityToAmerican (Num x) = Inr (Num (5 * of_int k))"
      "k \<le> - 20"
      "\<bar>5 * of_int k - (- 100 * x / (1 - x))\<bar> \<le> 5 / 2 + (100 * x / (1 - x)) / 10 ^ 15"
    using ipta_fav [OF True x(2)] by blast
  define od where "od = 100 * x / (1 - x)"
  have m: "- 100 * x / (1 - x) = - od" by (simp add: od_def)
  have q: "1 / 2 ^ 20 \<le> 1 - x" using x(2) by simp
  then have q0: "0 < 1 - x" by (smt (verit) divide_pos_pos zero_less_power zero_less_one)
  have "100 * x \<le> 104857500 * (1 - x)" using x(2) by simp
  then have "od \<le> 104857500" unfolding od_def using q0 by (simp add: pos_divide_le_eq)
  moreover from this have "od / 10 ^ 15 \<le> 1" by simp
  ultimately have "- 104857504 \<le> 5 * real_of_int k"
    using k(3) unfolding m od_def [symmetric] by linarith
  then have "real_of_int (- 104857504) \<le> real_of_int (5 * k)" by simp
  then have "- 104857504 \<le> 5 * k" by (simp only: of_int_le_iff)
  then have "- 20971500 \<le> k" by presburger
  then show ?thesis using k(1,2) by blast
next
  case False
  then have h: "x \<le> 1 / 2" by simp
  obtain k :: int where k: "impliedProbabilityToAmerican (Num x) = Inr (Num (5 * of_int k))"
      "20 \<le> k"
      "\<bar>5 * of_int k - 100 * (1 - x) / x\<bar> \<le> 5 / 2 + (100 * (1 - x) / x) / 10 ^ 15"
    using ipta_dog [OF x(1) h] by blast
  define od where "od = 100 * (1 - x) / x"
  have x0: "0 < x" using x(1) by (smt (verit) divide_pos_pos zero_less_power zero_less_one)
  have "100 * (1 - x) \<le> 104857500 * x" using x(1) by simp
  then have "od \<le> 104857500" unfolding od_def using x0 by (simp add: pos_divide_le_eq)
  moreover from this have "od / 10 ^ 15 \<le> 1" by simp
  ultimately have "5 * real_of_int k \<le> 104857504"
    using k(3) unfolding od_def [symmetric] by linarith
  then have "real_of_int (5 * k) \<le> real_of_int 104857504" by simp
  then have "5 * k \<le> 104857504" by (simp only: of_int_le_iff)
  then have "k \<le> 20971500" by presburger
  then show ?thesis using k(1,2) by blast
qed

lemma ipta_129: "impliedProbabilityToAmerican (Num (129 / 256)) = Inr (Num (- 100))"
proof -
  have "(1::real) / 2 < 129 / 256" "(129::real) / 256 \<le> 1 - 1 / 2 ^ 20" by simp_all
  then obtain k :: int
    where k: "impliedProbabilityToAmerican (Num (129 / 256)) = Inr (Num (5 * of_int k))"
      "\<bar>5 * real_of_int k - (- 100 * (129 / 256) / (1 - 129 / 256))\<bar>
         \<le> 5 / 2 + (100 * (129 / 256) / (1 - 129 / 256)) / 10 ^ 15"
    using ipta_fav [of "129 / 256"] by blast
  define c :: real where "c = - 100 * (129 / 256) / (1 - 129 / 256)"
  define d :: real where "d = 5 / 2 + (100 * (129 / 256) / (1 - 129 / 256)) / 10 ^ 15"
  have c: "c = - 12900 / 127" by (simp add: c_def)
  have d: "d \<le> 251 / 100" by (simp add: d_def)
  have "\<bar>5 * real_of_int k - c\<bar> \<le> d" using k(2) unfolding c_def d_def .
  then have "\<bar>5 * real_of_int k + 100\<bar> < 5" using d unfolding c by linarith
  then have "\<bar>5 * real_of_int k - 5 * real_of_int (- 20)\<bar> < 5" by simp
  then have "k = - 20" by (rule int_5k_eq)
  then show ?thesis using k(1) by simp
qed

text \<open>
  Claim C6, as amended. \<open>r o\<close> is \<^verbatim>\<open>probabilityToAmerican(americanToProbability(o))\<close>, in
  binary64. For every probability \<open>x\<close> from \<open>2^-20\<close> to \<open>1 - 2^-20\<close> the odds
  \<open>v = probabilityToAmerican(x)\<close> are a number of magnitude at least 100, and \<open>r v = v\<close>
  unless \<open>v = -100\<close>; \<open>r (-100) = 100\<close>, the same even-money price with the other sign,
  since the implied probability \<open>0.5\<close> is not above \<open>0.5\<close>. A second round trip changes
  nothing more.
\<close>

theorem roundtrip_stable:
  fixes x :: real
  assumes "1 / 2 ^ 20 \<le> x" "x \<le> 1 - 1 / 2 ^ 20"
  shows "\<exists>v. impliedProbabilityToAmerican (Num x) = Inr (Num v) \<and> 100 \<le> \<bar>v\<bar>
           \<and> impliedProbabilityToAmerican (americanToImpliedProbability64 (Num v))
               = Inr (Num (if v = - 100 then 100 else v))
           \<and> impliedProbabilityToAmerican
                 (americanToImpliedProbability64 (Num (if v = - 100 then 100 else v)))
               = Inr (Num (if v = - 100 then 100 else v))"
proof -
  obtain k :: int where k: "impliedProbabilityToAmerican (Num x) = Inr (Num (5 * of_int k))"
      "(20 \<le> k \<and> k \<le> 20971500) \<or> (- 20971500 \<le> k \<and> k \<le> - 20)"
    using ipta_range [OF assms] by blast
  consider (pos) "20 \<le> k" "k \<le> 20971500" | (neg) "- 20971500 \<le> k" "k \<le> - 21" | (even) "k = - 20"
    using k(2) by linarith
  then show ?thesis
  proof cases
    case pos
    have "real_of_int 20 \<le> real_of_int k" using pos(1) by (simp only: of_int_le_iff)
    then have "100 \<le> \<bar>5 * real_of_int k\<bar>" "5 * real_of_int k \<noteq> - 100" by simp_all
    then show ?thesis using k(1) roundtrip_pos [OF pos] by simp
  next
    case neg
    have "real_of_int k \<le> real_of_int (- 21)" using neg(2) by (simp only: of_int_le_iff)
    then have "100 \<le> \<bar>5 * real_of_int k\<bar>" "5 * real_of_int k \<noteq> - 100" by simp_all
    then show ?thesis using k(1) roundtrip_neg [OF neg] by simp
  next
    case even
    then show ?thesis using k(1) by (simp add: roundtrip_even)
  qed
qed

theorem roundtrip_stable_witness:
  "(1::real) / 2 ^ 20 \<le> 3 / 4 \<and> (3 / 4 :: real) \<le> 1 - 1 / 2 ^ 20
   \<and> impliedProbabilityToAmerican (Num (3 / 4)) = Inr (Num (- 300))
   \<and> impliedProbabilityToAmerican (americanToImpliedProbability64 (Num (- 300)))
       = Inr (Num (- 300))"
proof -
  have h: "(1::real) / 2 ^ 20 \<le> 3 / 4" "(3 / 4 :: real) \<le> 1 - 1 / 2 ^ 20" by simp_all
  obtain v where v: "impliedProbabilityToAmerican (Num (3 / 4)) = Inr (Num v)"
      "impliedProbabilityToAmerican (americanToImpliedProbability64 (Num v))
         = Inr (Num (if v = - 100 then 100 else v))"
    using roundtrip_stable [OF h] by blast
  have "v = - 300" using v(1) by (simp add: ipta_three_quarters)
  then show ?thesis using h v by simp
qed

text \<open>The claim as stated fails at the odds \<open>-100\<close>, which the probability \<open>129/256\<close>
  (about \<open>0.504\<close>) gets: the round trip returns \<open>+100\<close>.\<close>

theorem roundtrip_even_money_counterexample:
  "impliedProbabilityToAmerican (Num (129 / 256)) = Inr (Num (- 100))
   \<and> impliedProbabilityToAmerican (americanToImpliedProbability64 (Num (- 100))) = Inr (Num 100)
   \<and> impliedProbabilityToAmerican (americanToImpliedProbability64 (Num (- 100)))
       \<noteq> Inr (Num (- 100))"
  by (simp add: ipta_129 roundtrip_even)


section \<open>Finite results\<close>

lemma quotient_unit:
  fixes a r :: real
  assumes "0 \<le> a" "a \<le> r" "100 \<le> r"
  shows "\<exists>t. fl (a / r) = Num t \<and> 0 \<le> t \<and> t \<le> 1"
proof -
  have "0 \<le> a / r" "a / r \<le> 1" using assms by simp_all
  then show ?thesis using fl_between [of 0 1 "a / r"] by simp
qed

lemma atip64_unit:
  fixes v :: real
  assumes v: "is_double v"
  shows "\<exists>t. americanToImpliedProbability64 (Num v) = Num t \<and> 0 \<le> t \<and> t \<le> 1"
proof (cases "0 < v")
  case True
  have "fl (v + 100) = PosInf \<or> (\<exists>r. fl (v + 100) = Num r \<and> 100 \<le> r)"
    using True by (intro fl_ge) (simp_all add: is_double_numeral)
  then show ?thesis
  proof
    assume "fl (v + 100) = PosInf"
    then show ?thesis
      using True by (simp add: americanToImpliedProbability64_def add64_Num div64_def)
  next
    assume "\<exists>r. fl (v + 100) = Num r \<and> 100 \<le> r"
    then obtain r where r: "fl (v + 100) = Num r" "100 \<le> r" by blast
    obtain t where "fl (100 / r) = Num t" "0 \<le> t" "t \<le> 1"
      using quotient_unit [of 100 r] r(2) by auto
    then show ?thesis
      using True r by (simp add: americanToImpliedProbability64_def add64_Num div64_Num)
  qed
next
  case False
  define a where "a = \<bar>v\<bar>"
  have a0: "0 \<le> a" by (simp add: a_def)
  have "a = - v" using False by (simp add: a_def)
  then have da: "is_double a" using v by (simp add: is_double_minus)
  have "fl (a + 100) = PosInf \<or> (\<exists>r. fl (a + 100) = Num r \<and> a \<le> r)"
    using da by (rule fl_ge) simp
  moreover have "fl (a + 100) = PosInf \<or> (\<exists>r. fl (a + 100) = Num r \<and> 100 \<le> r)"
    using a0 by (intro fl_ge) (simp_all add: is_double_numeral)
  ultimately consider "fl (a + 100) = PosInf" | r where "fl (a + 100) = Num r" "a \<le> r" "100 \<le> r"
    by auto
  then show ?thesis
  proof cases
    case 1
    then show ?thesis
      using False
      by (simp add: americanToImpliedProbability64_def a_def [symmetric] add64_Num div64_def)
  next
    case 2
    obtain t where "fl (a / r) = Num t" "0 \<le> t" "t \<le> 1"
      using quotient_unit [OF a0 2(2,3)] by auto
    then show ?thesis
      using False 2
      by (simp add: americanToImpliedProbability64_def a_def [symmetric] add64_Num div64_Num)
  qed
qed

lemma oddsToProb64_eq: "SimulationService_oddsToProb64 = americanToImpliedProbability64"
  by (rule ext) (simp add: SimulationService_oddsToProb64_def americanToImpliedProbability64_def)

lemma edge64_unit:
  fixes m s :: real
  assumes "is_double m" "is_double s"
  shows "\<exists>t. SimulationService_calculateEdge64 (Num m) (Num s) = Num t \<and> - 1 \<le> t \<and> t \<le> 1"
proof -
  obtain a where a: "americanToImpliedProbability64 (Num m) = Num a" "0 \<le> a" "a \<le> 1"
    using atip64_unit [OF assms(1)] by blast
  obtain b where b: "americanToImpliedProbability64 (Num s) = Num b" "0 \<le> b" "b \<le> 1"
    using atip64_unit [OF assms(2)] by blast
  have "- 1 \<le> b - a" "b - a \<le> 1" using a b by simp_all
  then have "\<exists>t. fl (b - a) = Num t \<and> - 1 \<le> t \<and> t \<le> 1"
    using is_double_minus [of 1] by (intro fl_between) simp_all
  then show ?thesis
    by (simp add: SimulationService_calculateEdge64_def oddsToProb64_eq a b sub64_Num)
qed

lemma ipta_finite:
  fixes p :: real
  assumes "1 / 2 ^ 20 \<le> p" "p \<le> 1 - 1 / 2 ^ 20"
  shows "\<exists>r. impliedProbabilityToAmerican (Num p) = Inr (Num r)"
proof (cases "1 / 2 < p")
  case True
  then show ?thesis using ipta_fav [OF True assms(2)] by blast
next
  case False
  then have "p \<le> 1 / 2" by simp
  then show ?thesis using ipta_dog [OF assms(1)] by blast
qed

lemma dec_finite:
  fixes v :: real
  assumes "100 \<le> \<bar>v\<bar>" "\<bar>v\<bar> < 2 ^ 1024"
  shows "is_finite (americanToDecimalOdds (Num v))"
  using kelly_b [OF assms] unfolding dec_by_value [symmetric] by metis

lemma ratings:
  "determineValueType e \<in> {''strong_value'', ''value'', ''poor'', ''below'', ''fair''}"
  "SimulationService_getValueRating e \<in> {''strong'', ''value'', ''poor'', ''negative'', ''neutral''}"
  by (simp_all add: determineValueType_def SimulationService_getValueRating_def)

text \<open>
  Claim C8, as amended. In binary64: for every double \<open>v\<close> the conversion of the odds
  \<open>v\<close> to a probability returns a number from 0 to 1, and the edge of two such odds a
  number from \<open>-1\<close> to 1. The conversion of a probability \<open>p\<close> raises its error exactly
  for \<open>p \<le> 0\<close> and \<open>p \<ge> 1\<close>, and returns a finite number for \<open>p\<close> from \<open>2^-20\<close> to
  \<open>1 - 2^-20\<close>. For finite odds of magnitude at least 100 the decimal odds are finite,
  and so is the Kelly stake of a probability \<open>0 < p < 1\<close>. The classification returns one
  of its five ratings, not a number. No function checks the odds.
\<close>

theorem core_finite:
  fixes v m p :: real
  shows "(is_double v \<longrightarrow>
            (\<exists>t. americanToImpliedProbability64 (Num v) = Num t \<and> 0 \<le> t \<and> t \<le> 1))
       \<and> (is_double m \<and> is_double v \<longrightarrow>
            (\<exists>t. SimulationService_calculateEdge64 (Num m) (Num v) = Num t \<and> - 1 \<le> t \<and> t \<le> 1))
       \<and> (impliedProbabilityToAmerican (Num p) = Inl InvalidProbabilityError) = (p \<le> 0 \<or> 1 \<le> p)
       \<and> isl (impliedProbabilityToAmerican (Num p)) = (p \<le> 0 \<or> 1 \<le> p)
       \<and> (1 / 2 ^ 20 \<le> p \<and> p \<le> 1 - 1 / 2 ^ 20 \<longrightarrow>
            (\<exists>r. impliedProbabilityToAmerican (Num p) = Inr (Num r)))
       \<and> (100 \<le> \<bar>v\<bar> \<and> \<bar>v\<bar> < 2 ^ 1024 \<longrightarrow> is_finite (americanToDecimalOdds (Num v)))
       \<and> (0 < p \<and> p \<le> 1 - 1 / 2 ^ 53 \<and> 100 \<le> \<bar>v\<bar> \<and> \<bar>v\<bar> < 2 ^ 1024 \<longrightarrow>
            (\<exists>s. calculateKellyStake (Num p) (Num v) = Num s \<and> 0 \<le> s \<and> s \<le> 1))
       \<and> determineValueType e \<in> {''strong_value'', ''value'', ''poor'', ''below'', ''fair''}
       \<and> SimulationService_getValueRating e
            \<in> {''strong'', ''value'', ''poor'', ''negative'', ''neutral''}"
proof (intro conjI impI)
  show "(impliedProbabilityToAmerican (Num p) = Inl InvalidProbabilityError) = (p \<le> 0 \<or> 1 \<le> p)"
    by (simp add: ipta_error_iff)
  show "isl (impliedProbabilityToAmerican (Num p)) = (p \<le> 0 \<or> 1 \<le> p)"
    by (simp add: ipta_error_iff)
  show "determineValueType e \<in> {''strong_value'', ''value'', ''poor'', ''below'', ''fair''}"
    by (rule ratings)
  show "SimulationService_getValueRating e
      \<in> {''strong'', ''value'', ''poor'', ''negative'', ''neutral''}"
    by (rule ratings)
next
  assume "is_double v"
  then show "\<exists>t. americanToImpliedProbability64 (Num v) = Num t \<and> 0 \<le> t \<and> t \<le> 1"
    by (rule atip64_unit)
next
  assume "is_double m \<and> is_double v"
  then show "\<exists>t. SimulationService_calculateEdge64 (Num m) (Num v) = Num t \<and> - 1 \<le> t \<and> t \<le> 1"
    by (simp add: edge64_unit)
next
  assume "1 / 2 ^ 20 \<le> p \<and> p \<le> 1 - 1 / 2 ^ 20"
  then show "\<exists>r. impliedProbabilityToAmerican (Num p) = Inr (Num r)"
    using ipta_finite [of p] by blast
next
  assume "100 \<le> \<bar>v\<bar> \<and> \<bar>v\<bar> < 2 ^ 1024"
  then show "is_finite (americanToDecimalOdds (Num v))" using dec_finite [of v] by blast
next
  assume "0 < p \<and> p \<le> 1 - 1 / 2 ^ 53 \<and> 100 \<le> \<bar>v\<bar> \<and> \<bar>v\<bar> < 2 ^ 1024"
  then show "\<exists>s. calculateKellyStake (Num p) (Num v) = Num s \<and> 0 \<le> s \<and> s \<le> 1"
    using kelly_valid [of p v] by blast
qed

theorem core_finite_witness:
  "is_double (- 150) \<and> is_double (- 210)
   \<and> is_finite (americanToImpliedProbability64 (Num (- 150)))
   \<and> is_finite (SimulationService_calculateEdge64 (Num (- 210)) (Num (- 150)))
   \<and> (1::real) / 2 ^ 20 \<le> 3 / 4 \<and> (3 / 4 :: real) \<le> 1 - 1 / 2 ^ 20
   \<and> \<not> isl (impliedProbabilityToAmerican (Num (3 / 4)))
   \<and> (100::real) \<le> \<bar>- 150\<bar> \<and> \<bar>- 150 :: real\<bar> < 2 ^ 1024
   \<and> (0::real) < 3 / 4 \<and> (3 / 4 :: real) \<le> 1 - 1 / 2 ^ 53
   \<and> is_finite (americanToDecimalOdds (Num (- 150)))
   \<and> is_finite (calculateKellyStake (Num (3 / 4)) (Num (- 150)))"
proof -
  have d: "is_double (- 150)" "is_double (- 210)"
    using is_double_int [of "- 150"] is_double_int [of "- 210"] by simp_all
  have h: "(1::real) / 2 ^ 20 \<le> 3 / 4" "(3 / 4 :: real) \<le> 1 - 1 / 2 ^ 20"
    "(100::real) \<le> \<bar>- 150\<bar>" "\<bar>- 150 :: real\<bar> < 2 ^ 1024"
    "(0::real) < 3 / 4" "(3 / 4 :: real) \<le> 1 - 1 / 2 ^ 53" by simp_all
  note c = core_finite [of "- 150" "- 210" "3 / 4" "Num 0"]
  have "is_finite (americanToImpliedProbability64 (Num (- 150)))"
    using c d by (metis is_finite.simps(1))
  moreover have "is_finite (SimulationService_calculateEdge64 (Num (- 210)) (Num (- 150)))"
    using c d by (metis is_finite.simps(1))
  moreover have "\<not> isl (impliedProbabilityToAmerican (Num (3 / 4)))" using c by simp
  moreover have "is_finite (americanToDecimalOdds (Num (- 150)))" using c h(3,4) by blast
  moreover have "is_finite (calculateKellyStake (Num (3 / 4)) (Num (- 150)))"
    using c h(3-6) by (metis is_finite.simps(1))
  ultimately show ?thesis using d h by blast
qed

text \<open>The claim as stated fails: the decimal odds of the odds \<open>0\<close> are \<open>Infinity\<close>, the
  Kelly stake at the odds \<open>0\<close> is \<open>NaN\<close>, and the probability \<open>2^-1020\<close> is converted to
  \<open>Infinity\<close>.\<close>

theorem core_finite_counterexample:
  "americanToDecimalOdds (Num 0) = PosInf
   \<and> calculateKellyStake (Num (1 / 2)) (Num 0) = NaN
   \<and> impliedProbabilityToAmerican (Num (1 / 2 ^ 1020)) = Inr PosInf"
proof -
  have "americanToDecimalOdds (Num 0) = PosInf"
    by (simp add: americanToDecimalOdds_def add64_def div64_def js_signed_inf_def)
  then show ?thesis using kelly_zero_odds ipta_overflow by blast
qed


section \<open>Sorting by a numeric key, descending\<close>

lemma js_insert_insort:
  assumes "is_finite (key x)" "list_all (\<lambda>y. is_finite (key y)) ys"
  shows "js_insert (\<lambda>a b. js_sub (key b) (key a)) x ys = insort_key (\<lambda>a. - num_val (key a)) x ys"
  using assms(2)
proof (induction ys)
  case Nil
  then show ?case by simp
next
  case (Cons y ys)
  obtain a where a: "key x = Num a" using assms(1) by (cases "key x") simp_all
  obtain b where b: "key y = Num b" using Cons.prems by (cases "key y") simp_all
  show ?case using Cons by (auto simp: a b)
qed

lemma js_sort_sort_key:
  assumes "list_all (\<lambda>y. is_finite (key y)) xs"
  shows "js_sort (\<lambda>a b. js_sub (key b) (key a)) xs = sort_key (\<lambda>a. - num_val (key a)) xs"
  using assms
proof (induction xs)
  case Nil
  then show ?case by (simp add: js_sort_def)
next
  case (Cons x xs)
  have "list_all (\<lambda>y. is_finite (key y)) (sort_key (\<lambda>a. - num_val (key a)) xs)"
    using Cons.prems by (simp add: list_all_iff)
  then have "js_insert (\<lambda>a b. js_sub (key b) (key a)) x (sort_key (\<lambda>a. - num_val (key a)) xs)
      = insort_key (\<lambda>a. - num_val (key a)) x (sort_key (\<lambda>a. - num_val (key a)) xs)"
    using Cons.prems by (intro js_insert_insort) simp_all
  then show ?case using Cons by (simp add: js_sort_def)
qed

lemma mset_js_insert: "mset (js_insert cmp x ys) = add_mset x (mset ys)"
  by (induction ys) simp_all

lemma mset_js_sort: "mset (js_sort cmp xs) = mset xs"
  by (induction xs) (simp_all add: js_sort_def mset_js_insert)




section \<open>The best value\<close>






section \<open>The ranking of the prop bets\<close>

lemma sortByConfidence_sort_key:
  assumes "list_all (\<lambda>p. is_finite (confidence p)) props"
  shows "sortByConfidence props = sort_key (\<lambda>p. - num_val (confidence p)) props"
  unfolding sortByConfidence_def using assms by (rule js_sort_sort_key)

lemma sortByConfidence_three:
  assumes "map confidence props = [Num 0.55, Num 0.82, Num 0.70]"
  shows "map confidence (sortByConfidence props) = [Num 0.82, Num 0.70, Num 0.55]"
proof -
  obtain a b c where props: "props = [a, b, c]"
    and c: "confidence a = Num 0.55" "confidence b = Num 0.82" "confidence c = Num 0.70"
    using assms by auto
  show ?thesis by (simp add: props sortByConfidence_def js_sort_def c)
qed

text \<open>
  Claim C9. For every list of prop bets with finite confidences, the sorted list holds the
  same bets (as a multiset), each confidence in it is at least the next ones, and for
  every confidence value the bets of that confidence stand in their original order. The
  confidences \<open>[0.55, 0.82, 0.70]\<close> come out as \<open>[0.82, 0.70, 0.55]\<close>.
\<close>

theorem sortByConfidence_stable:
  assumes "list_all (\<lambda>p. is_finite (confidence p)) props"
  shows "mset (sortByConfidence props) = mset props
       \<and> sorted_wrt (\<lambda>a b. js_ge (confidence a) (confidence b)) (sortByConfidence props)
       \<and> (\<forall>c. filter (\<lambda>p. confidence p = c) (sortByConfidence props)
               = filter (\<lambda>p. confidence p = c) props)
       \<and> (map confidence props = [Num 0.55, Num 0.82, Num 0.70] \<longrightarrow>
            map confidence (sortByConfidence props) = [Num 0.82, Num 0.70, Num 0.55])"
proof -
  define key :: "prop_bet \<Rightarrow> real" where "key = (\<lambda>p. - num_val (confidence p))"
  have eq: "sortByConfidence props = sort_key key props"
    unfolding key_def using assms by (rule sortByConfidence_sort_key)
  have fin: "\<And>p. p \<in> set props \<Longrightarrow> confidence p = Num (- key p)"
  proof -
    fix p assume "p \<in> set props"
    then have "is_finite (confidence p)" using assms by (simp add: list_all_iff)
    then show "confidence p = Num (- key p)" by (cases "confidence p") (simp_all add: key_def)
  qed
  have perm: "mset (sortByConfidence props) = mset props"
    by (simp add: sortByConfidence_def mset_js_sort)
  have "sorted_wrt (\<lambda>a b. key a \<le> key b) (sort_key key props)"
    using sorted_sort_key [of key props] by (simp add: sorted_map)
  then have desc: "sorted_wrt (\<lambda>a b. js_ge (confidence a) (confidence b)) (sort_key key props)"
  proof (rule sorted_wrt_mono_rel [rotated])
    fix a b assume "a \<in> set (sort_key key props)" "b \<in> set (sort_key key props)" "key a \<le> key b"
    then show "js_ge (confidence a) (confidence b)" using fin [of a] fin [of b] by simp
  qed
  have stable: "filter (\<lambda>p. confidence p = c) (sort_key key props)
      = filter (\<lambda>p. confidence p = c) props" for c
  proof (cases c)
    case (Num r)
    have "filter (\<lambda>p. confidence p = c) (sort_key key props)
        = filter (\<lambda>p. key p = - r) (sort_key key props)"
      using fin by (intro filter_cong) (auto simp: Num)
    also have "\<dots> = filter (\<lambda>p. key p = - r) props" by (rule sort_key_stable)
    also have "\<dots> = filter (\<lambda>p. confidence p = c) props"
      using fin by (intro filter_cong) (auto simp: Num)
    finally show ?thesis .
  next
    case PosInf
    then have "\<And>p. p \<in> set props \<Longrightarrow> confidence p \<noteq> c" using fin by auto
    then show ?thesis by (simp add: filter_False)
  next
    case NegInf
    then have "\<And>p. p \<in> set props \<Longrightarrow> confidence p \<noteq> c" using fin by auto
    then show ?thesis by (simp add: filter_False)
  next
    case NaN
    then have "\<And>p. p \<in> set props \<Longrightarrow> confidence p \<noteq> c" using fin by auto
    then show ?thesis by (simp add: filter_False)
  qed
  have desc': "sorted_wrt (\<lambda>a b. js_ge (confidence a) (confidence b)) (sortByConfidence props)"
    using desc by (simp add: eq)
  have stable': "\<forall>c. filter (\<lambda>p. confidence p = c) (sortByConfidence props)
      = filter (\<lambda>p. confidence p = c) props"
    using stable by (simp add: eq)
  show ?thesis using perm desc' stable' sortByConfidence_three [of props] by blast
qed

theorem sortByConfidence_stable_witness:
  "list_all (\<lambda>p. is_finite (confidence p))
     [\<lparr>playerName = ''Player 1'', betType = ''hits'', line = Num 1.5, recommendation = ''under'',
        confidence = Num 0.55, reasoning = ''r''\<rparr>,
      \<lparr>playerName = ''Player 2'', betType = ''hits'', line = Num 1.5, recommendation = ''over'',
        confidence = Num 0.70, reasoning = ''r''\<rparr>,
      \<lparr>playerName = ''Player 3'', betType = ''home_run'', line = Num 0.5, recommendation = ''over'',
        confidence = Num 0.82, reasoning = ''r''\<rparr>,
      \<lparr>playerName = ''Player 4'', betType = ''strikeouts'', line = Num 5.5, recommendation = ''over'',
        confidence = Num 0.70, reasoning = ''r''\<rparr>]
   \<and> map playerName (sortByConfidence
     [\<lparr>playerName = ''Player 1'', betType = ''hits'', line = Num 1.5, recommendation = ''under'',
        confidence = Num 0.55, reasoning = ''r''\<rparr>,
      \<lparr>playerName = ''Player 2'', betType = ''hits'', line = Num 1.5, recommendation = ''over'',
        confidence = Num 0.70, reasoning = ''r''\<rparr>,
      \<lparr>playerName = ''Player 3'', betType = ''home_run'', line = Num 0.5, recommendation = ''over'',
        confidence = Num 0.82, reasoning = ''r''\<rparr>,
      \<lparr>playerName = ''Player 4'', betType = ''strikeouts'', line = Num 5.5, recommendation = ''over'',
        confidence = Num 0.70, reasoning = ''r''\<rparr>])
     = [''Player 3'', ''Player 2'', ''Player 4'', ''Player 1'']
   \<and> sorted_wrt (\<lambda>a b. js_ge (confidence a) (confidence b)) (sortByConfidence
     [\<lparr>playerName = ''Player 1'', betType = ''hits'', line = Num 1.5, recommendation = ''under'',
        confidence = Num 0.55, reasoning = ''r''\<rparr>,
      \<lparr>playerName = ''Player 2'', betType = ''hits'', line = Num 1.5, recommendation = ''over'',
        confidence = Num 0.70, reasoning = ''r''\<rparr>,
      \<lparr>playerName = ''Player 3'', betType = ''home_run'', line = Num 0.5, recommendation = ''over'',
        confidence = Num 0.82, reasoning = ''r''\<rparr>,
      \<lparr>playerName = ''Player 4'', betType = ''strikeouts'', line = Num 5.5, recommendation = ''over'',
        confidence = Num 0.70, reasoning = ''r''\<rparr>])"
proof -
  let ?ps = "[\<lparr>playerName = ''Player 1'', betType = ''hits'', line = Num 1.5, recommendation = ''under'',
        confidence = Num 0.55, reasoning = ''r''\<rparr>,
      \<lparr>playerName = ''Player 2'', betType = ''hits'', line = Num 1.5, recommendation = ''over'',
        confidence = Num 0.70, reasoning = ''r''\<rparr>,
      \<lparr>playerName = ''Player 3'', betType = ''home_run'', line = Num 0.5, recommendation = ''over'',
        confidence = Num 0.82, reasoning = ''r''\<rparr>,
      \<lparr>playerName = ''Player 4'', betType = ''strikeouts'', line = Num 5.5, recommendation = ''over'',
        confidence = Num 0.70, reasoning = ''r''\<rparr>]"
  have h: "list_all (\<lambda>p. is_finite (confidence p)) ?ps" by simp
  have "map playerName (sortByConfidence ?ps) = [''Player 3'', ''Player 2'', ''Player 4'', ''Player 1'']"
    by (simp add: sortByConfidence_def js_sort_def)
  then show ?thesis using h sortByConfidence_stable [OF h] by blast
qed

section \<open>Missing inputs of the value analysis\<close>

lemma js_sort_Nil_iff: "js_sort cmp xs = [] \<longleftrightarrow> xs = []"
  using mset_js_sort [of cmp xs] by (metis mset_zero_iff)

lemma findBestValue_entries: "\<exists>best. findBestValue (entries edges) = Inr best"
proof -
  have "js_sort (\<lambda>a b. js_sub (snd b) (snd a)) (entries edges) \<noteq> []"
    by (simp add: js_sort_Nil_iff entries_def)
  then show ?thesis
    by (auto simp: findBestValue_def Let_def split: list.splits prod.splits)
qed

text \<open>
  Claim C10. \<^verbatim>\<open>analyzeBettingValue\<close> and \<^verbatim>\<open>SimulationService.analyzeValue\<close> return
  \<^verbatim>\<open>null\<close>, and raise no error, whenever one of their two arguments is \<^verbatim>\<open>null\<close> or
  \<^verbatim>\<open>undefined\<close>. (With two objects \<^verbatim>\<open>analyzeBettingValue\<close> returns an assessment, so
  the \<^verbatim>\<open>null\<close> marks the missing input.)
\<close>

theorem analyze_missing_input:
  "(marketOdds \<in> {Undefined, Null} \<or> simulatedOdds \<in> {Undefined, Null} \<longrightarrow>
      analyzeBettingValue marketOdds simulatedOdds = Inr None)
   \<and> (sim \<in> {Undefined, Null} \<or> marketOdds \<in> {Undefined, Null} \<longrightarrow>
      SimulationService_analyzeValue sim marketOdds = Inr None)
   \<and> (\<exists>assessment. analyzeBettingValue (Obj market) (Obj simulated) = Inr (Some assessment))"
proof (intro conjI impI)
  assume "marketOdds \<in> {Undefined, Null} \<or> simulatedOdds \<in> {Undefined, Null}"
  then show "analyzeBettingValue marketOdds simulatedOdds = Inr None"
    by (auto simp: analyzeBettingValue_def split: jsref.splits)
next
  assume "sim \<in> {Undefined, Null} \<or> marketOdds \<in> {Undefined, Null}"
  then show "SimulationService_analyzeValue sim marketOdds = Inr None"
    by (auto simp: SimulationService_analyzeValue_def split: jsref.splits)
next
  show "\<exists>assessment. analyzeBettingValue (Obj market) (Obj simulated) = Inr (Some assessment)"
    unfolding analyzeBettingValue_def Let_def
    using findBestValue_entries by (auto split: sum.splits) (metis Inl_Inr_False)
qed

theorem analyze_missing_input_witness:
  "(Null :: game_odds jsref) \<in> {Undefined, Null}
   \<and> analyzeBettingValue Null
        (Obj \<lparr>homeMoneyline = Num (- 150), awayMoneyline = Num 130,
              overOdds = Num (- 110), underOdds = Num (- 110)\<rparr>) = Inr None
   \<and> (Undefined :: game_odds jsref) \<in> {Undefined, Null}
   \<and> analyzeBettingValue
        (Obj \<lparr>homeMoneyline = Num (- 150), awayMoneyline = Num 130,
              overOdds = Num (- 110), underOdds = Num (- 110)\<rparr>) Undefined = Inr None
   \<and> SimulationService_analyzeValue Undefined
        (Obj \<lparr>homeMoneyline = Num (- 150), awayMoneyline = Num 130,
              overOdds = Num (- 110), underOdds = Num (- 110)\<rparr>) = Inr None
   \<and> SimulationService_analyzeValue (Obj \<lparr>bettingInsights = Undefined\<rparr>) Null = Inr None"
  using
    analyze_missing_input [where marketOdds = Null
      and simulatedOdds = "Obj \<lparr>homeMoneyline = Num (- 150), awayMoneyline = Num 130,
              overOdds = Num (- 110), underOdds = Num (- 110)\<rparr>"
      and sim = "Obj \<lparr>bettingInsights = Undefined\<rparr>"]
    analyze_missing_input [where simulatedOdds = Undefined
      and marketOdds = "Obj \<lparr>homeMoneyline = Num (- 150), awayMoneyline = Num 130,
              overOdds = Num (- 110), underOdds = Num (- 110)\<rparr>"
      and sim = Undefined]
  by simp

end


